theory Spec2Isabelle
  imports Complex_Main
begin

section \<open>Python floats\<close>

text \<open>
  The add-on computes with Python floats: IEEE-754 binary64 values, infinities and NaN.
  A finite float is modelled by the real number it denotes; every arithmetic result is
  rounded to the nearest binary64 value, ties to even (\<open>fl\<close>), and overflows to an
  infinity. The sign of zero is not modelled: none of the modelled operations can observe it
  (both zeros compare equal, and a zero divisor raises whatever its sign).
\<close>

datatype pyfloat = Fin real | PInf | NInf | NaN

datatype py_error = ValueError | OverflowError | ZeroDivisionError | AttributeError

text \<open>Round half to even, from a real to an integer.\<close>

definition rhe :: "real \<Rightarrow> int" where
  "rhe y = (let f = \<lfloor>y\<rfloor>; d = y - of_int f in
     if d < 1/2 then f else if 1/2 < d then f + 1 else if even f then f else f + 1)"

text \<open>The number of binary digits of a positive integer.\<close>

function bitlen :: "int \<Rightarrow> int" where
  "bitlen n = (if n \<le> 0 then 0 else 1 + bitlen (n div 2))"
  by pat_completeness auto
termination
  by (relation "measure nat") auto

declare bitlen.simps [simp del]

text \<open>The binary exponent \<open>e\<close> of a non-zero real: \<open>2^e \<le> |x| < 2^(e+1)\<close>.\<close>

definition expo :: "real \<Rightarrow> int" where
  "expo x = (if 1 \<le> \<bar>x\<bar> then bitlen \<lfloor>\<bar>x\<bar>\<rfloor> - 1
             else - bitlen (\<lceil>1 / \<bar>x\<bar>\<rceil> - 1))"

text \<open>
  The binary64 grid has 53 significant bits and a spacing that is never below \<open>2^-1074\<close>
  (subnormal numbers): \<open>ulp x\<close> is the spacing of the grid around \<open>x\<close>, and \<open>rtd\<close> rounds
  to the nearest grid value, ties to the even one. \<open>fl\<close> adds the overflow to an infinity.
\<close>

definition ulp :: "real \<Rightarrow> real" where
  "ulp x = 2 powi (max (expo x) (- 1022) - 52)"

definition rtd :: "real \<Rightarrow> real" where
  "rtd x = (if x = 0 then 0 else of_int (rhe (x / ulp x)) * ulp x)"

definition fl :: "real \<Rightarrow> pyfloat" where
  "fl x = (let r = rtd x in
     if 2 ^ 1024 \<le> \<bar>r\<bar> then (if 0 < x then PInf else NInf) else Fin r)"

text \<open>A real number that is a finite binary64 value.\<close>

definition is_binary64 :: "real \<Rightarrow> bool" where
  "is_binary64 x \<longleftrightarrow> rtd x = x \<and> \<bar>x\<bar> < 2 ^ 1024"

text \<open>A float value: an infinity, NaN, or a finite binary64 value.\<close>

fun valid :: "pyfloat \<Rightarrow> bool" where
  "valid (Fin x) = is_binary64 x"
| "valid PInf = True"
| "valid NInf = True"
| "valid NaN = True"

text \<open>
  The host keeps the components of a \<open>mathutils.Vector\<close> and its float properties in single
  precision (binary32): 24 significant bits, a spacing that is never below \<open>2^-149\<close>, and
  an overflow to an infinity from \<open>2^128\<close> on. \<open>rtd32\<close> rounds to the nearest binary32
  value, ties to even, and \<open>to_single\<close> is the conversion of a Python float to single
  precision; reading the component or the property gives that value back as a Python float.
\<close>

definition ulp32 :: "real \<Rightarrow> real" where
  "ulp32 x = 2 powi (max (expo x) (- 126) - 23)"

definition rtd32 :: "real \<Rightarrow> real" where
  "rtd32 x = (if x = 0 then 0 else of_int (rhe (x / ulp32 x)) * ulp32 x)"

definition fl32 :: "real \<Rightarrow> pyfloat" where
  "fl32 x = (let r = rtd32 x in
     if 2 ^ 128 \<le> \<bar>r\<bar> then (if 0 < x then PInf else NInf) else Fin r)"

text \<open>A real number that is a finite binary32 value.\<close>

definition is_binary32 :: "real \<Rightarrow> bool" where
  "is_binary32 x \<longleftrightarrow> rtd32 x = x \<and> \<bar>x\<bar> < 2 ^ 128"

fun to_single :: "pyfloat \<Rightarrow> pyfloat" where
  "to_single (Fin x) = fl32 x"
| "to_single PInf = PInf"
| "to_single NInf = NInf"
| "to_single NaN = NaN"

fun isfinite :: "pyfloat \<Rightarrow> bool" where
  "isfinite (Fin x) = True"
| "isfinite PInf = False"
| "isfinite NInf = False"
| "isfinite NaN = False"

text \<open>Comparisons: every comparison with NaN is false.\<close>

fun float_le :: "pyfloat \<Rightarrow> pyfloat \<Rightarrow> bool" where
  "float_le NaN b = False"
| "float_le a NaN = False"
| "float_le NInf b = True"
| "float_le a PInf = True"
| "float_le PInf b = False"
| "float_le (Fin a) NInf = False"
| "float_le (Fin a) (Fin b) = (a \<le> b)"

fun float_lt :: "pyfloat \<Rightarrow> pyfloat \<Rightarrow> bool" where
  "float_lt NaN b = False"
| "float_lt a NaN = False"
| "float_lt PInf b = False"
| "float_lt a NInf = False"
| "float_lt NInf b = True"
| "float_lt (Fin a) PInf = True"
| "float_lt (Fin a) (Fin b) = (a < b)"

text \<open>
  The builtins \<open>max\<close> and \<open>min\<close> keep their first argument unless a later one is
  strictly greater (smaller).
\<close>

definition py_max :: "pyfloat \<Rightarrow> pyfloat \<Rightarrow> pyfloat" where
  "py_max a b = (if float_lt a b then b else a)"

definition py_min :: "pyfloat \<Rightarrow> pyfloat \<Rightarrow> pyfloat" where
  "py_min a b = (if float_lt b a then b else a)"

fun float_abs :: "pyfloat \<Rightarrow> pyfloat" where
  "float_abs (Fin a) = Fin \<bar>a\<bar>"
| "float_abs PInf = PInf"
| "float_abs NInf = PInf"
| "float_abs NaN = NaN"

fun float_mul :: "pyfloat \<Rightarrow> pyfloat \<Rightarrow> pyfloat" where
  "float_mul NaN b = NaN"
| "float_mul a NaN = NaN"
| "float_mul (Fin a) (Fin b) = fl (a * b)"
| "float_mul (Fin a) PInf = (if a = 0 then NaN else if 0 < a then PInf else NInf)"
| "float_mul (Fin a) NInf = (if a = 0 then NaN else if 0 < a then NInf else PInf)"
| "float_mul PInf (Fin b) = (if b = 0 then NaN else if 0 < b then PInf else NInf)"
| "float_mul NInf (Fin b) = (if b = 0 then NaN else if 0 < b then NInf else PInf)"
| "float_mul PInf PInf = PInf"
| "float_mul PInf NInf = NInf"
| "float_mul NInf PInf = NInf"
| "float_mul NInf NInf = PInf"

fun float_sub :: "pyfloat \<Rightarrow> pyfloat \<Rightarrow> pyfloat" where
  "float_sub NaN b = NaN"
| "float_sub a NaN = NaN"
| "float_sub (Fin a) (Fin b) = fl (a - b)"
| "float_sub (Fin a) PInf = NInf"
| "float_sub (Fin a) NInf = PInf"
| "float_sub PInf (Fin b) = PInf"
| "float_sub NInf (Fin b) = NInf"
| "float_sub PInf PInf = NaN"
| "float_sub PInf NInf = PInf"
| "float_sub NInf PInf = NInf"
| "float_sub NInf NInf = NaN"

text \<open>The quotient by a non-zero divisor; \<open>py_truediv\<close> is Python's \<open>/\<close>.\<close>

fun float_div :: "pyfloat \<Rightarrow> pyfloat \<Rightarrow> pyfloat" where
  "float_div NaN b = NaN"
| "float_div a NaN = NaN"
| "float_div (Fin a) (Fin b) = fl (a / b)"
| "float_div (Fin a) PInf = Fin 0"
| "float_div (Fin a) NInf = Fin 0"
| "float_div PInf (Fin b) = (if 0 < b then PInf else NInf)"
| "float_div NInf (Fin b) = (if 0 < b then NInf else PInf)"
| "float_div PInf PInf = NaN"
| "float_div PInf NInf = NaN"
| "float_div NInf PInf = NaN"
| "float_div NInf NInf = NaN"

definition py_truediv :: "pyfloat \<Rightarrow> pyfloat \<Rightarrow> py_error + pyfloat" where
  "py_truediv a b = (if b = Fin 0 then Inl ZeroDivisionError else Inr (float_div a b))"

text \<open>
  \<open>round(x)\<close> with one argument returns an integer, rounding half to even; it raises
  ValueError on NaN and OverflowError on an infinity.
\<close>

fun py_round :: "pyfloat \<Rightarrow> py_error + int" where
  "py_round (Fin y) = Inr (rhe y)"
| "py_round PInf = Inl OverflowError"
| "py_round NInf = Inl OverflowError"
| "py_round NaN = Inl ValueError"

text \<open>
  An integer operand of a float operation is converted to a float first (OverflowError
  when it is too large); \<open>int_mul k s\<close> is \<open>k * s\<close> for an integer \<open>k\<close> and a float \<open>s\<close>.
\<close>

definition float_of_int :: "int \<Rightarrow> py_error + pyfloat" where
  "float_of_int k = (case fl (of_int k) of Fin r \<Rightarrow> Inr (Fin r) | _ \<Rightarrow> Inl OverflowError)"

definition int_mul :: "int \<Rightarrow> pyfloat \<Rightarrow> py_error + pyfloat" where
  "int_mul k s = (case float_of_int k of Inl e \<Rightarrow> Inl e | Inr kf \<Rightarrow> Inr (float_mul kf s))"

text \<open>
  The float literals of the source. \<open>0.0\<close>, \<open>0.5\<close>, \<open>2.0\<close>, \<open>15.0\<close>, \<open>180.0\<close> and \<open>1e6\<close>
  are binary64 values and are written \<open>Fin 0\<close>, \<open>Fin (1/2)\<close>, ...; \<open>1e-5\<close> and \<open>1e-6\<close>
  are not, and denote the nearest binary64 value. \<open>math.pi\<close> is the binary64 value below.
\<close>

definition lit_1e_5 :: pyfloat where
  "lit_1e_5 = fl (1 / 100000)"

definition lit_1e_6 :: pyfloat where
  "lit_1e_6 = fl (1 / 1000000)"

definition lit_1e6 :: pyfloat where
  "lit_1e6 = Fin 1000000"

definition py_pi :: pyfloat where
  "py_pi = Fin (884279719003555 / 2 ^ 48)"

section \<open>The host's data, as the add-on reads and writes it\<close>

text \<open>
  A \<open>mathutils.Vector\<close> of three components is a triple of floats: the values that
  reading its components gives. The host keeps them in single precision, and the
  constructor \<open>Vector\<close> below converts what it is given. Of a 4x4 matrix the
  add-on uses its translation column, the product with a vector (\<open>mat @ v\<close>) and
  \<open>mat.inverted()\<close>, which raises ValueError when there is no inverse (\<open>inverted = None\<close>);
  \<open>inverted = Some f\<close> gives the product \<open>f v\<close> of the inverse with a vector. The products
  are the host library's and are parameters of the model.
\<close>

type_synonym vec = "pyfloat \<times> pyfloat \<times> pyfloat"

record matrix =
  translation :: vec
  matmul :: "vec \<Rightarrow> vec"
  inverted :: "(vec \<Rightarrow> vec) option"

record bvert =
  select :: bool
  co :: vec

text \<open>An object: \<open>data\<close> is the address of its mesh in the store of meshes.\<close>

record bobject =
  obj_type :: string
  location :: vec
  matrix_world :: matrix
  data :: nat

text \<open>
  Tool settings. An attribute that some host versions do not have is an option:
  \<open>None\<close> when \<open>hasattr\<close> is false.
\<close>

record tool_settings =
  use_snap :: bool
  snap_elements :: "string set"
  snap_angle :: "pyfloat option"
  use_snap_grid_absolute :: "bool option"

record hg_props =
  enabled :: bool
  grid_size :: pyfloat
  override_hotkeys :: bool

record bscene =
  hg :: hg_props
  scene_tool_settings :: "tool_settings option"

record overlay =
  show_floor :: bool
  grid_scale :: pyfloat
  grid_subdivisions :: int

record space =
  space_type :: string
  space_overlay :: overlay

record area =
  area_type :: string
  spaces :: "space list"

text \<open>
  The context: objects and meshes live in stores indexed by address, so that writing to
  one object leaves the others as they are. \<open>windows\<close> holds the areas of each window's
  screen.
\<close>

record bcontext =
  scene :: "bscene option"
  mode :: string
  active_object :: "nat option"
  selected_objects :: "nat list"
  objects :: "nat \<Rightarrow> bobject"
  meshes :: "nat \<Rightarrow> bvert list"
  windows :: "area list list"

text \<open>
  What an operator asks of the host: a transform operator called with the execution
  context \<open>INVOKE_DEFAULT\<close> and keyword arguments, or with none (\<open>None\<close>).
\<close>

datatype transform_op = Translate | Rotate | Resize

record op_kwargs =
  kw_snap :: bool
  kw_use_proportional_edit :: bool
  kw_snap_elements :: "string set"
  kw_snap_target :: string

datatype host_call = OpCall transform_op string "op_kwargs option"

datatype op_result = FINISHED | CANCELLED

text \<open>
  The record that the oracle passes to \<open>logger.debug\<close>: the branch taken, \<open>any_on\<close>, the
  maximal remainder and the tolerance. The other logging calls are not modelled.
\<close>

datatype log_record = Debug string bool pyfloat pyfloat

section \<open>The source functions\<close>

subsection \<open>Quantizer and remainder\<close>

definition round_to_step :: "pyfloat \<Rightarrow> pyfloat \<Rightarrow> py_error + pyfloat" where
  "round_to_step x s =
     (if float_le s (Fin 0) \<or> \<not> isfinite x then Inr x
      else case py_truediv x s of Inl e \<Rightarrow> Inl e
           | Inr d \<Rightarrow> (case py_round d of Inl e \<Rightarrow> Inl e | Inr k \<Rightarrow> int_mul k s))"

text \<open>
  \<open>Vector((a, b, c))\<close> converts its three components to single precision. The quantizer
  calls \<open>_round_to_step\<close> on the three coordinates in turn and builds a vector of the
  results.
\<close>

definition Vector :: "pyfloat \<times> pyfloat \<times> pyfloat \<Rightarrow> vec" where
  "Vector t = (case t of (a, b, c) \<Rightarrow> (to_single a, to_single b, to_single c))"

definition quantize_vector_world :: "vec \<Rightarrow> pyfloat \<Rightarrow> py_error + vec" where
  "quantize_vector_world v step =
     (case v of (x, y, z) \<Rightarrow>
        (case round_to_step x step of Inl e \<Rightarrow> Inl e
         | Inr a \<Rightarrow> (case round_to_step y step of Inl e \<Rightarrow> Inl e
         | Inr b \<Rightarrow> (case round_to_step z step of Inl e \<Rightarrow> Inl e
         | Inr c \<Rightarrow> Inr (Vector (a, b, c))))))"

definition remainder_to_grid :: "pyfloat \<Rightarrow> pyfloat \<Rightarrow> py_error + pyfloat" where
  "remainder_to_grid x step =
     (if float_le step (Fin 0) then Inr (Fin 0)
      else case py_truediv x step of Inl e \<Rightarrow> Inl e
           | Inr d \<Rightarrow> (case py_round d of Inl e \<Rightarrow> Inl e
           | Inr k \<Rightarrow> (case int_mul k step of Inl e \<Rightarrow> Inl e
           | Inr m \<Rightarrow> Inr (float_abs (float_sub x m)))))"

definition vec_remainder_to_grid :: "vec \<Rightarrow> pyfloat \<Rightarrow> py_error + vec" where
  "vec_remainder_to_grid v step =
     (case v of (x, y, z) \<Rightarrow>
        (case remainder_to_grid x step of Inl e \<Rightarrow> Inl e
         | Inr rx \<Rightarrow> (case remainder_to_grid y step of Inl e \<Rightarrow> Inl e
         | Inr ry \<Rightarrow> (case remainder_to_grid z step of Inl e \<Rightarrow> Inl e
         | Inr rz \<Rightarrow> Inr (rx, ry, rz)))))"

subsection \<open>On-grid detection\<close>

text \<open>
  The loop over the selected objects: \<open>max_r\<close> is the running maximal remainder, and the
  loop is left at the first object whose three remainders are within \<open>eps\<close>. An
  exception raised by a remainder leaves the loop and the function.
\<close>

fun loop_objects ::
  "pyfloat \<Rightarrow> pyfloat \<Rightarrow> pyfloat \<Rightarrow> bobject list \<Rightarrow> py_error + (bool \<times> pyfloat)" where
  "loop_objects eps step max_r [] = Inr (False, max_r)"
| "loop_objects eps step max_r (ob # obs) =
     (case vec_remainder_to_grid (translation (matrix_world ob)) step of
        Inl e \<Rightarrow> Inl e
      | Inr (rx, ry, rz) \<Rightarrow>
          (let max_r' = py_max (py_max (py_max max_r rx) ry) rz in
           if float_le rx eps \<and> float_le ry eps \<and> float_le rz eps then Inr (True, max_r')
           else loop_objects eps step max_r' obs))"

text \<open>The loop over the vertices of the edit mesh; unselected vertices are skipped.\<close>

fun loop_verts ::
  "pyfloat \<Rightarrow> pyfloat \<Rightarrow> matrix \<Rightarrow> pyfloat \<Rightarrow> bvert list \<Rightarrow> py_error + (bool \<times> pyfloat)" where
  "loop_verts eps step mat max_r [] = Inr (False, max_r)"
| "loop_verts eps step mat max_r (v # vs) =
     (if select v then
        (case vec_remainder_to_grid (matmul mat (co v)) step of
           Inl e \<Rightarrow> Inl e
         | Inr (rx, ry, rz) \<Rightarrow>
             (let max_r' = py_max (py_max (py_max max_r rx) ry) rz in
              if float_le rx eps \<and> float_le ry eps \<and> float_le rz eps then Inr (True, max_r')
              else loop_verts eps step mat max_r' vs))
      else loop_verts eps step mat max_r vs)"

text \<open>The tolerance \<open>max(1e-5, step * 1e-6)\<close>.\<close>

definition epsilon :: "pyfloat \<Rightarrow> pyfloat" where
  "epsilon step = py_max lit_1e_5 (float_mul step lit_1e_6)"

text \<open>
  \<open>_selection_has_any_on_grid\<close>. The result is the returned boolean together with the
  records passed to \<open>logger.debug\<close> (none when there is no active object).
\<close>

definition selection_has_any_on_grid ::
  "bcontext \<Rightarrow> pyfloat \<Rightarrow> py_error + (bool \<times> log_record list)" where
  "selection_has_any_on_grid ctx step =
     (case active_object ctx of
        None \<Rightarrow> Inr (False, [])
      | Some a \<Rightarrow>
          (let obj = objects ctx a;
               eps = epsilon step in
           if mode ctx = ''OBJECT'' then
             (let sel = (if selected_objects ctx = [] then [a] else selected_objects ctx) in
              case loop_objects eps step (Fin 0) (map (objects ctx) sel) of
                Inl e \<Rightarrow> Inl e
              | Inr (any_on, max_r) \<Rightarrow> Inr (any_on, [Debug ''OBJECT'' any_on max_r eps]))
           else if obj_type obj = ''MESH'' \<and> mode ctx = ''EDIT_MESH'' then
             (case loop_verts eps step (matrix_world obj) (Fin 0) (meshes ctx (data obj)) of
                Inl e \<Rightarrow> Inl e
              | Inr (any_on, max_r) \<Rightarrow> Inr (any_on, [Debug ''EDIT_MESH'' any_on max_r eps]))
           else
             (case vec_remainder_to_grid (translation (matrix_world obj)) step of
                Inl e \<Rightarrow> Inl e
              | Inr (rx, ry, rz) \<Rightarrow>
                  (let max_r = py_max (py_max rx ry) rz;
                       any_on = (float_le rx eps \<and> float_le ry eps \<and> float_le rz eps) in
                   Inr (any_on, [Debug ''FALLBACK'' any_on max_r eps])))))"

subsection \<open>Snap settings\<close>

definition sync_overlay :: "pyfloat \<Rightarrow> overlay \<Rightarrow> overlay" where
  "sync_overlay step ov = ov\<lparr>show_floor := True, grid_scale := step, grid_subdivisions := 8\<rparr>"

definition sync_space :: "pyfloat \<Rightarrow> space \<Rightarrow> space" where
  "sync_space step sp =
     (if space_type sp \<noteq> ''VIEW_3D'' then sp
      else sp\<lparr>space_overlay := sync_overlay step (space_overlay sp)\<rparr>)"

definition sync_area :: "pyfloat \<Rightarrow> area \<Rightarrow> area" where
  "sync_area step ar =
     (if area_type ar \<noteq> ''VIEW_3D'' then ar
      else ar\<lparr>spaces := map (sync_space step) (spaces ar)\<rparr>)"

text \<open>\<open>_sync_viewport_grid\<close>: reading \<open>context.scene.hg\<close> without a scene raises.\<close>

definition sync_viewport_grid :: "bcontext \<Rightarrow> py_error + bcontext" where
  "sync_viewport_grid ctx =
     (case scene ctx of
        None \<Rightarrow> Inl AttributeError
      | Some sc \<Rightarrow>
          Inr (ctx\<lparr>windows := map (map (sync_area (grid_size (hg sc)))) (windows ctx)\<rparr>))"

definition apply_tool_snap :: "bcontext \<Rightarrow> py_error + bcontext" where
  "apply_tool_snap ctx =
     (case scene ctx of
        None \<Rightarrow> Inr ctx
      | Some sc \<Rightarrow>
          (case scene_tool_settings sc of
             None \<Rightarrow> Inr ctx
           | Some ts \<Rightarrow>
               (let ts' = ts\<lparr>use_snap := True,
                              snap_elements := {''INCREMENT''},
                              snap_angle :=
                                (case snap_angle ts of
                                   None \<Rightarrow> None
                                 | Some old \<Rightarrow>
                                     Some (float_div (float_mul (Fin 15) py_pi) (Fin 180)))\<rparr>
                in sync_viewport_grid
                     (ctx\<lparr>scene := Some (sc\<lparr>scene_tool_settings := Some ts'\<rparr>)\<rparr>))))"

definition set_absolute_snap :: "bcontext \<Rightarrow> bool \<Rightarrow> bcontext" where
  "set_absolute_snap ctx enable =
     (case scene ctx of
        None \<Rightarrow> ctx
      | Some sc \<Rightarrow>
          (case scene_tool_settings sc of
             None \<Rightarrow> ctx
           | Some ts \<Rightarrow>
               (case use_snap_grid_absolute ts of
                  None \<Rightarrow> ctx
                | Some old \<Rightarrow>
                    ctx\<lparr>scene := Some (sc\<lparr>scene_tool_settings :=
                            Some (ts\<lparr>use_snap_grid_absolute := Some enable\<rparr>)\<rparr>)\<rparr>)))"

subsection \<open>Transform invokers and the G/R/S operators\<close>

definition snap_kw :: op_kwargs where
  "snap_kw = \<lparr>kw_snap = True, kw_use_proportional_edit = False,
              kw_snap_elements = {''INCREMENT''}, kw_snap_target = ''CLOSEST''\<rparr>"

text \<open>
  An operator returns the context as it has left it, and either the exception it raised
  or its result.
\<close>

definition invoke_translate :: "bcontext \<Rightarrow> bcontext \<times> (py_error + host_call)" where
  "invoke_translate ctx =
     (case scene ctx of
        None \<Rightarrow> (ctx, Inl AttributeError)
      | Some sc \<Rightarrow>
          (case selection_has_any_on_grid ctx (grid_size (hg sc)) of
             Inl e \<Rightarrow> (ctx, Inl e)
           | Inr (has_on_grid, logged) \<Rightarrow>
               (set_absolute_snap ctx (\<not> has_on_grid),
                Inr (OpCall Translate ''INVOKE_DEFAULT'' (Some snap_kw)))))"

definition invoke_rotate :: "bcontext \<Rightarrow> bcontext \<times> (py_error + host_call)" where
  "invoke_rotate ctx = (ctx, Inr (OpCall Rotate ''INVOKE_DEFAULT'' (Some snap_kw)))"

definition invoke_scale :: "bcontext \<Rightarrow> bcontext \<times> (py_error + host_call)" where
  "invoke_scale ctx = (ctx, Inr (OpCall Resize ''INVOKE_DEFAULT'' (Some snap_kw)))"

definition HG_OT_move_invoke :: "bcontext \<Rightarrow> bcontext \<times> (py_error + host_call)" where
  "HG_OT_move_invoke ctx =
     (case scene ctx of
        None \<Rightarrow> (ctx, Inl AttributeError)
      | Some sc \<Rightarrow>
          if \<not> enabled (hg sc) then (ctx, Inr (OpCall Translate ''INVOKE_DEFAULT'' None))
          else (case apply_tool_snap ctx of
                  Inl e \<Rightarrow> (ctx, Inl e)
                | Inr ctx' \<Rightarrow> invoke_translate ctx'))"

definition HG_OT_rotate_invoke :: "bcontext \<Rightarrow> bcontext \<times> (py_error + host_call)" where
  "HG_OT_rotate_invoke ctx =
     (case scene ctx of
        None \<Rightarrow> (ctx, Inl AttributeError)
      | Some sc \<Rightarrow>
          if \<not> enabled (hg sc) then (ctx, Inr (OpCall Rotate ''INVOKE_DEFAULT'' None))
          else (case apply_tool_snap ctx of
                  Inl e \<Rightarrow> (ctx, Inl e)
                | Inr ctx' \<Rightarrow> invoke_rotate ctx'))"

definition HG_OT_scale_invoke :: "bcontext \<Rightarrow> bcontext \<times> (py_error + host_call)" where
  "HG_OT_scale_invoke ctx =
     (case scene ctx of
        None \<Rightarrow> (ctx, Inl AttributeError)
      | Some sc \<Rightarrow>
          if \<not> enabled (hg sc) then (ctx, Inr (OpCall Resize ''INVOKE_DEFAULT'' None))
          else (case apply_tool_snap ctx of
                  Inl e \<Rightarrow> (ctx, Inl e)
                | Inr ctx' \<Rightarrow> invoke_scale ctx'))"

subsection \<open>Quantize to grid\<close>

text \<open>
  The loop over the selected objects writes each quantized location into the store; an
  exception leaves the loop with the objects written so far.
\<close>

fun quantize_objects ::
  "pyfloat \<Rightarrow> nat list \<Rightarrow> (nat \<Rightarrow> bobject) \<Rightarrow> (nat \<Rightarrow> bobject) \<times> (py_error + unit)" where
  "quantize_objects step [] st = (st, Inr ())"
| "quantize_objects step (i # js) st =
     (case quantize_vector_world (location (st i)) step of
        Inl e \<Rightarrow> (st, Inl e)
      | Inr q \<Rightarrow> quantize_objects step js (st(i := (st i)\<lparr>location := q\<rparr>)))"

text \<open>
  The loop over the vertices of the edit mesh: a selected vertex is taken to world space,
  quantized and taken back.
\<close>

fun quantize_verts ::
  "pyfloat \<Rightarrow> (vec \<Rightarrow> vec) \<Rightarrow> (vec \<Rightarrow> vec) \<Rightarrow> bvert list \<Rightarrow> bvert list \<times> (py_error + unit)" where
  "quantize_verts step mat minv [] = ([], Inr ())"
| "quantize_verts step mat minv (v # vs) =
     (if select v then
        (case quantize_vector_world (mat (co v)) step of
           Inl e \<Rightarrow> (v # vs, Inl e)
         | Inr q \<Rightarrow>
             (case quantize_verts step mat minv vs of
                (vs', r) \<Rightarrow> (v\<lparr>co := minv q\<rparr> # vs', r)))
      else (case quantize_verts step mat minv vs of (vs', r) \<Rightarrow> (v # vs', r)))"

definition HG_OT_quantize_to_grid_execute ::
  "bcontext \<Rightarrow> bcontext \<times> (py_error + op_result)" where
  "HG_OT_quantize_to_grid_execute ctx =
     (case scene ctx of
        None \<Rightarrow> (ctx, Inl AttributeError)
      | Some sc \<Rightarrow>
          (let step = grid_size (hg sc) in
           case active_object ctx of
             None \<Rightarrow> (ctx, Inr CANCELLED)
           | Some a \<Rightarrow>
               (let obj = objects ctx a in
                if mode ctx = ''OBJECT'' then
                  (case quantize_objects step (selected_objects ctx) (objects ctx) of
                     (st, Inl e) \<Rightarrow> (ctx\<lparr>objects := st\<rparr>, Inl e)
                   | (st, Inr u) \<Rightarrow> (ctx\<lparr>objects := st\<rparr>, Inr FINISHED))
                else if obj_type obj = ''MESH'' \<and> mode ctx = ''EDIT_MESH'' then
                  (case inverted (matrix_world obj) of
                     None \<Rightarrow> (ctx, Inl ValueError)
                   | Some minv \<Rightarrow>
                       (case quantize_verts step (matmul (matrix_world obj)) minv
                               (meshes ctx (data obj)) of
                          (vs, Inl e) \<Rightarrow> (ctx\<lparr>meshes := (meshes ctx)(data obj := vs)\<rparr>, Inl e)
                        | (vs, Inr u) \<Rightarrow>
                            (ctx\<lparr>meshes := (meshes ctx)(data obj := vs)\<rparr>, Inr FINISHED)))
                else (ctx, Inr CANCELLED))))"

subsection \<open>Grid step\<close>

text \<open>
  \<open>grid_size\<close> is declared as \<open>FloatProperty(min=1e-6)\<close>: the host keeps it in single
  precision. A value assigned to it is converted to single precision and clamped to the
  range of the property, which goes from the declared minimum, itself held in single
  precision, to the largest single-precision value (no maximum is declared).
\<close>

definition grid_size_min :: pyfloat where
  "grid_size_min = to_single lit_1e_6"

definition float32_max :: pyfloat where
  "float32_max = Fin ((2 ^ 24 - 1) * 2 ^ 104)"

definition store_grid_size :: "pyfloat \<Rightarrow> pyfloat" where
  "store_grid_size g =
     (let v = to_single g in
      if float_lt v grid_size_min then grid_size_min
      else if float_lt float32_max v then float32_max
      else v)"

definition set_grid_size :: "bcontext \<Rightarrow> pyfloat \<Rightarrow> bcontext" where
  "set_grid_size ctx g =
     (case scene ctx of
        None \<Rightarrow> ctx
      | Some sc \<Rightarrow>
          ctx\<lparr>scene := Some (sc\<lparr>hg := (hg sc)\<lparr>grid_size := store_grid_size g\<rparr>\<rparr>)\<rparr>)"

definition step_down :: "pyfloat \<Rightarrow> pyfloat" where
  "step_down g = py_max lit_1e_6 (float_mul g (Fin (1/2)))"

definition step_up :: "pyfloat \<Rightarrow> pyfloat" where
  "step_up g = py_min lit_1e6 (float_mul g (Fin 2))"

definition HG_OT_grid_step_down_execute ::
  "bcontext \<Rightarrow> bcontext \<times> (py_error + op_result)" where
  "HG_OT_grid_step_down_execute ctx =
     (case scene ctx of
        None \<Rightarrow> (ctx, Inl AttributeError)
      | Some sc \<Rightarrow>
          (let ctx1 = set_grid_size ctx (step_down (grid_size (hg sc))) in
           case sync_viewport_grid ctx1 of
             Inl e \<Rightarrow> (ctx1, Inl e)
           | Inr ctx2 \<Rightarrow>
               (case apply_tool_snap ctx2 of
                  Inl e \<Rightarrow> (ctx2, Inl e)
                | Inr ctx3 \<Rightarrow> (ctx3, Inr FINISHED))))"

definition HG_OT_grid_step_up_execute ::
  "bcontext \<Rightarrow> bcontext \<times> (py_error + op_result)" where
  "HG_OT_grid_step_up_execute ctx =
     (case scene ctx of
        None \<Rightarrow> (ctx, Inl AttributeError)
      | Some sc \<Rightarrow>
          (let ctx1 = set_grid_size ctx (step_up (grid_size (hg sc))) in
           case sync_viewport_grid ctx1 of
             Inl e \<Rightarrow> (ctx1, Inl e)
           | Inr ctx2 \<Rightarrow>
               (case apply_tool_snap ctx2 of
                  Inl e \<Rightarrow> (ctx2, Inl e)
                | Inr ctx3 \<Rightarrow> (ctx3, Inr FINISHED))))"

section \<open>The notions of the specification\<close>

text \<open>
  The selection of the specification: the world-space points that the oracle examines.
  In object mode these are the origins of the selected objects, or of the active object
  when no object is selected; in mesh edit mode the selected vertices, taken to world
  space; otherwise the origin of the active object. Without an active object there is
  none.
\<close>

definition selection_points :: "bcontext \<Rightarrow> vec list" where
  "selection_points ctx =
     (case active_object ctx of
        None \<Rightarrow> []
      | Some a \<Rightarrow>
          if mode ctx = ''OBJECT'' then
            map (\<lambda>i. translation (matrix_world (objects ctx i)))
              (if selected_objects ctx = [] then [a] else selected_objects ctx)
          else if obj_type (objects ctx a) = ''MESH'' \<and> mode ctx = ''EDIT_MESH'' then
            map (\<lambda>v. matmul (matrix_world (objects ctx a)) (co v))
              (filter select (meshes ctx (data (objects ctx a))))
          else [translation (matrix_world (objects ctx a))])"

text \<open>
  The scan of the specification over a list of points: the outcome is the exception of
  the first remainder that raises, or whether a point was found on the grid together
  with the maximal remainder seen.
\<close>

fun scan_points ::
  "pyfloat \<Rightarrow> pyfloat \<Rightarrow> pyfloat \<Rightarrow> vec list \<Rightarrow> py_error + (bool \<times> pyfloat)" where
  "scan_points eps step max_r [] = Inr (False, max_r)"
| "scan_points eps step max_r (w # ws) =
     (case vec_remainder_to_grid w step of
        Inl e \<Rightarrow> Inl e
      | Inr (rx, ry, rz) \<Rightarrow>
          (let max_r' = py_max (py_max (py_max max_r rx) ry) rz in
           if float_le rx eps \<and> float_le ry eps \<and> float_le rz eps then Inr (True, max_r')
           else scan_points eps step max_r' ws))"

text \<open>
  A point is on the grid when its three remainders can be computed and each is at most
  the tolerance.
\<close>

definition point_on_grid :: "vec \<Rightarrow> pyfloat \<Rightarrow> bool" where
  "point_on_grid w step =
     (case vec_remainder_to_grid w step of
        Inl e \<Rightarrow> False
      | Inr (rx, ry, rz) \<Rightarrow>
          float_le rx (epsilon step) \<and> float_le ry (epsilon step) \<and> float_le rz (epsilon step))"

text \<open>The absolute-grid flag of a context, when the tool settings have one.\<close>

definition absolute_flag :: "bcontext \<Rightarrow> bool option" where
  "absolute_flag ctx =
     (case scene ctx of
        None \<Rightarrow> None
      | Some sc \<Rightarrow>
          (case scene_tool_settings sc of
             None \<Rightarrow> None
           | Some ts \<Rightarrow> use_snap_grid_absolute ts))"

text \<open>The grid step of a context, when it has a scene.\<close>

definition grid_step :: "bcontext \<Rightarrow> pyfloat option" where
  "grid_step ctx = (case scene ctx of None \<Rightarrow> None | Some sc \<Rightarrow> Some (grid_size (hg sc)))"

section \<open>Example contexts\<close>

text \<open>
  An object at a given place (its matrix is a translation of the identity), and a context
  with one window-less scene: the grid-snap switch, the grid step and the absolute flag
  are given, as are the mode, the active object, the selection and the objects.
\<close>

definition ex_object :: "vec \<Rightarrow> bobject" where
  "ex_object w =
     \<lparr>obj_type = ''MESH'', location = w,
      matrix_world = \<lparr>translation = w, matmul = (\<lambda>v. v), inverted = Some (\<lambda>v. v)\<rparr>,
      data = 0\<rparr>"

text \<open>The objects at the addresses \<open>0, 1, ...\<close> are at the places of a list.\<close>

definition ex_objects :: "vec list \<Rightarrow> nat \<Rightarrow> bobject" where
  "ex_objects ws i = ex_object (if i < length ws then ws ! i else (Fin 0, Fin 0, Fin 0))"

definition ex_context ::
  "bool \<Rightarrow> pyfloat \<Rightarrow> bool \<Rightarrow> string \<Rightarrow> nat option \<Rightarrow> nat list \<Rightarrow> (nat \<Rightarrow> bobject) \<Rightarrow> bcontext"
  where
  "ex_context on step absolute m act sel obs =
     \<lparr>scene = Some \<lparr>hg = \<lparr>enabled = on, grid_size = step, override_hotkeys = True\<rparr>,
                     scene_tool_settings =
                       Some \<lparr>use_snap = False, snap_elements = {}, snap_angle = None,
                             use_snap_grid_absolute = Some absolute\<rparr>\<rparr>,
      mode = m, active_object = act, selected_objects = sel, objects = obs,
      meshes = (\<lambda>i. []), windows = []\<rparr>"

text \<open>
  A context in mesh edit mode: the active object is the mesh object at address 0, at the
  origin, and every mesh address holds the given vertices.
\<close>

definition ex_mesh_context :: "pyfloat \<Rightarrow> bvert list \<Rightarrow> bcontext" where
  "ex_mesh_context step vs =
     (ex_context True step False ''EDIT_MESH'' (Some 0) [0] (ex_objects []))\<lparr>meshes := (\<lambda>i. vs)\<rparr>"

section \<open>Facts about the float model\<close>

lemma rhe_of_int: "rhe (of_int k) = k"
  by (simp add: rhe_def)

lemma rhe_cases:
  "rhe y = \<lfloor>y\<rfloor> \<or> rhe y = \<lfloor>y\<rfloor> + 1"
  by (simp add: rhe_def Let_def)

lemma rhe_err: "\<bar>of_int (rhe y) - y\<bar> \<le> 1/2"
proof -
  have "of_int \<lfloor>y\<rfloor> \<le> y" "y < of_int \<lfloor>y\<rfloor> + 1" by linarith+
  then show ?thesis
    by (auto simp: rhe_def Let_def abs_le_iff)
qed

lemma rhe_eqI:
  assumes "\<bar>y - of_int k\<bar> < 1/2"
  shows "rhe y = k"
proof -
  have "\<bar>of_int (rhe y) - y\<bar> \<le> 1/2" by (rule rhe_err)
  with assms have "\<bar>(of_int (rhe y) :: real) - of_int k\<bar> < 1" by linarith
  then have "\<bar>rhe y - k\<bar> < 1"
    by (metis of_int_1 of_int_abs of_int_diff of_int_less_iff)
  then show ?thesis by linarith
qed

lemma rhe_mono: "x \<le> y \<Longrightarrow> rhe x \<le> rhe y"
proof -
  assume xy: "x \<le> y"
  have fx: "of_int \<lfloor>x\<rfloor> \<le> x" "x < of_int \<lfloor>x\<rfloor> + 1" by linarith+
  have fy: "of_int \<lfloor>y\<rfloor> \<le> y" "y < of_int \<lfloor>y\<rfloor> + 1" by linarith+
  have fl: "\<lfloor>x\<rfloor> \<le> \<lfloor>y\<rfloor>" using xy by (rule floor_mono)
  show ?thesis
  proof (cases "\<lfloor>x\<rfloor> = \<lfloor>y\<rfloor>")
    case True
    then show ?thesis using xy by (auto simp: rhe_def Let_def)
  next
    case False
    then have "\<lfloor>x\<rfloor> + 1 \<le> \<lfloor>y\<rfloor>" using fl by linarith
    moreover have "rhe x \<le> \<lfloor>x\<rfloor> + 1" using rhe_cases[of x] by linarith
    moreover have "\<lfloor>y\<rfloor> \<le> rhe y" using rhe_cases[of y] by linarith
    ultimately show ?thesis by linarith
  qed
qed

lemma rhe_add_even:
  assumes "even n"
  shows "rhe (of_int n + y) = n + rhe y"
proof -
  have "\<lfloor>of_int n + y\<rfloor> = n + \<lfloor>y\<rfloor>" by simp
  then show ?thesis using assms by (simp add: rhe_def Let_def)
qed

lemma rhe_minus: "rhe (- y) = - rhe y"
proof (cases "y = of_int \<lfloor>y\<rfloor>")
  case True
  then obtain k where "y = of_int k" ..
  then show ?thesis by (simp add: rhe_of_int flip: of_int_minus)
next
  case False
  then have lt: "of_int \<lfloor>y\<rfloor> < y" "y < of_int \<lfloor>y\<rfloor> + 1" by linarith+
  then have fm: "\<lfloor>- y\<rfloor> = - \<lfloor>y\<rfloor> - 1" by linarith
  show ?thesis using lt fm
    by (auto simp: rhe_def Let_def)
qed



lemma bitlen_bounds:
  "0 < n \<Longrightarrow> 1 \<le> bitlen n \<and> 2 ^ nat (bitlen n - 1) \<le> n \<and> n < 2 ^ nat (bitlen n)"
proof (induction n rule: bitlen.induct)
  case (1 n)
  show ?case
  proof (cases "n div 2 \<le> 0")
    case True
    with "1.prems" have "n = 1" by linarith
    then show ?thesis by (simp add: bitlen.simps[of 1] bitlen.simps[of 0])
  next
    case False
    then have pos: "0 < n div 2" by simp
    have n0: "\<not> n \<le> 0" using "1.prems" by simp
    from "1.IH"[OF n0 pos]
    have ih: "1 \<le> bitlen (n div 2)" "2 ^ nat (bitlen (n div 2) - 1) \<le> n div 2"
      "n div 2 < 2 ^ nat (bitlen (n div 2))" by auto
    define b where "b = bitlen (n div 2)"
    have bn: "bitlen n = 1 + b" using n0 by (simp add: b_def bitlen.simps[of n])
    have nb: "nat (1 + b) = Suc (nat b)" "nat b = Suc (nat (b - 1))" "nat (1 + b - 1) = nat b"
      using ih(1) by (auto simp: b_def)
    have lo: "(2::int) ^ nat b \<le> n"
    proof -
      have "(2::int) ^ nat b = 2 * 2 ^ nat (b - 1)" using nb(2) by (metis power_Suc)
      also have "\<dots> \<le> 2 * (n div 2)" using ih(2) by (simp add: b_def)
      also have "\<dots> \<le> n" by linarith
      finally show ?thesis .
    qed
    have hi: "n < 2 ^ Suc (nat b)"
    proof -
      have "n div 2 + 1 \<le> 2 ^ nat b" using ih(3) by (simp add: b_def)
      then have "2 * (n div 2) + 2 \<le> 2 ^ Suc (nat b)" by simp
      moreover have "n < 2 * (n div 2) + 2" by linarith
      ultimately show ?thesis by linarith
    qed
    show ?thesis using lo hi ih(1) by (simp add: bn nb b_def[symmetric])
  qed
qed

lemma expo_bracket:
  assumes "x \<noteq> 0"
  shows "2 powi (expo x) \<le> \<bar>x\<bar> \<and> \<bar>x\<bar> < 2 powi (expo x + 1)"
proof (cases "1 \<le> \<bar>x\<bar>")
  case True
  define n where "n = \<lfloor>\<bar>x\<bar>\<rfloor>"
  have npos: "0 < n" using True by (simp add: n_def)
  have e: "expo x = bitlen n - 1" using True by (simp add: expo_def n_def)
  from bitlen_bounds[OF npos]
  have b: "1 \<le> bitlen n" "2 ^ nat (bitlen n - 1) \<le> n" "n < 2 ^ nat (bitlen n)" by auto
  have nx: "of_int n \<le> \<bar>x\<bar>" "\<bar>x\<bar> < of_int n + 1" by (simp_all add: n_def)
  have "(2::real) powi (bitlen n - 1) = 2 ^ nat (bitlen n - 1)"
    using b(1) by (simp add: power_int_nonneg_exp)
  also have "\<dots> = of_int (2 ^ nat (bitlen n - 1))" by simp
  also have "\<dots> \<le> of_int n" using b(2) by (simp only: of_int_le_iff)
  finally have lo: "(2::real) powi (bitlen n - 1) \<le> \<bar>x\<bar>" using nx(1) by linarith
  have "n + 1 \<le> 2 ^ nat (bitlen n)" using b(3) by simp
  then have "(of_int (n + 1) :: real) \<le> of_int (2 ^ nat (bitlen n))" by (simp only: of_int_le_iff)
  also have "\<dots> = 2 powi (bitlen n)" using b(1) by (simp add: power_int_nonneg_exp)
  finally have hi: "\<bar>x\<bar> < 2 powi (bitlen n)" using nx(2) by simp
  show ?thesis using lo hi by (simp add: e)
next
  case False
  then have x1: "\<bar>x\<bar> < 1" by simp
  have x0: "0 < \<bar>x\<bar>" using assms by simp
  define y where "y = 1 / \<bar>x\<bar>"
  have y1: "1 < y" using x0 x1 by (simp add: y_def)
  define m where "m = \<lceil>y\<rceil> - 1"
  have my: "of_int m < y" "y \<le> of_int m + 1" unfolding m_def by linarith+
  have mpos: "0 < m" using y1 unfolding m_def by linarith
  have e: "expo x = - bitlen m" using False by (simp add: expo_def m_def y_def)
  from bitlen_bounds[OF mpos]
  have b: "1 \<le> bitlen m" "2 ^ nat (bitlen m - 1) \<le> m" "m < 2 ^ nat (bitlen m)" by auto
  have p1: "(2::real) powi (bitlen m) = 2 ^ nat (bitlen m)"
    using b(1) by (simp add: power_int_nonneg_exp)
  have p2: "(2::real) powi (bitlen m - 1) = 2 ^ nat (bitlen m - 1)"
    using b(1) by (simp add: power_int_nonneg_exp)
  have "m + 1 \<le> 2 ^ nat (bitlen m)" using b(3) by simp
  then have "(of_int (m + 1) :: real) \<le> of_int (2 ^ nat (bitlen m))" by (simp only: of_int_le_iff)
  then have r1: "of_int m + 1 \<le> (2::real) ^ nat (bitlen m)" by simp
  have yhi: "y \<le> 2 powi (bitlen m)" using my(2) r1 p1 by linarith
  have "(of_int (2 ^ nat (bitlen m - 1)) :: real) \<le> of_int m" using b(2) by (simp only: of_int_le_iff)
  then have r2: "(2::real) ^ nat (bitlen m - 1) \<le> of_int m" by simp
  have ylo: "2 powi (bitlen m - 1) < y" using my(1) r2 p2 by linarith
  have xy: "\<bar>x\<bar> = 1 / y" using x0 by (simp add: y_def)
  have ypos: "0 < y" using y1 by simp
  have pp: "0 < (2::real) powi (bitlen m)" "0 < (2::real) powi (bitlen m - 1)" by simp_all
  have lo: "2 powi (- bitlen m) \<le> \<bar>x\<bar>"
    unfolding xy power_int_minus_divide using yhi ypos pp(1) by (simp add: frac_le)
  have "1 / y < 1 / 2 powi (bitlen m - 1)"
    using ylo pp(2) by (simp add: frac_less2)
  also have "\<dots> = 2 powi (- bitlen m + 1)"
    by (simp add: power_int_minus_divide[symmetric])
  finally have hi: "\<bar>x\<bar> < 2 powi (- bitlen m + 1)" unfolding xy .
  show ?thesis using lo hi by (simp add: e)
qed

lemma expo_eqI:
  assumes "2 powi e \<le> \<bar>x\<bar>" "\<bar>x\<bar> < 2 powi (e + 1)"
  shows "expo x = e"
proof -
  have p: "0 < (2::real) powi e" by simp
  have "0 < \<bar>x\<bar>" using assms(1) p by linarith
  then have "x \<noteq> 0" by auto
  from expo_bracket[OF this]
  have b: "2 powi (expo x) \<le> \<bar>x\<bar>" "\<bar>x\<bar> < 2 powi (expo x + 1)" by auto
  have lt1: "(2::real) powi e < 2 powi (expo x + 1)" using assms(1) b(2) by linarith
  have 1: "e < expo x + 1"
  proof (rule ccontr)
    assume "\<not> e < expo x + 1"
    then have "expo x + 1 \<le> e" by simp
    then have "(2::real) powi (expo x + 1) \<le> 2 powi e"
      by (rule power_int_increasing) simp
    with lt1 show False by linarith
  qed
  have lt2: "(2::real) powi (expo x) < 2 powi (e + 1)" using assms(2) b(1) by linarith
  have 2: "expo x < e + 1"
  proof (rule ccontr)
    assume "\<not> expo x < e + 1"
    then have "e + 1 \<le> expo x" by simp
    then have "(2::real) powi (e + 1) \<le> 2 powi (expo x)"
      by (rule power_int_increasing) simp
    with lt2 show False by linarith
  qed
  from 1 2 show ?thesis by linarith
qed

lemma expo_minus: "expo (- x) = expo x"
  by (simp add: expo_def)




lemma ulp_pos: "0 < ulp x"
  by (simp add: ulp_def)

lemma ulp_minus: "ulp (- x) = ulp x"
  by (simp add: ulp_def expo_minus)

lemma rtd_0: "rtd 0 = 0"
  by (simp add: rtd_def)

lemma rtd_minus: "rtd (- x) = - rtd x"
  by (simp add: rtd_def ulp_minus rhe_minus)

lemma rtd_err_abs: "\<bar>rtd x - x\<bar> \<le> ulp x / 2"
proof (cases "x = 0")
  case True
  then show ?thesis using ulp_pos[of 0] by (simp add: rtd_def)
next
  case False
  have u: "0 < ulp x" by (rule ulp_pos)
  have "\<bar>of_int (rhe (x / ulp x)) - x / ulp x\<bar> \<le> 1/2" by (rule rhe_err)
  then have "\<bar>of_int (rhe (x / ulp x)) - x / ulp x\<bar> * ulp x \<le> 1/2 * ulp x"
    using u by (simp add: mult_right_mono)
  moreover have "\<bar>of_int (rhe (x / ulp x)) - x / ulp x\<bar> * ulp x
      = \<bar>of_int (rhe (x / ulp x)) * ulp x - x\<bar>"
  proof -
    have "\<bar>of_int (rhe (x / ulp x)) - x / ulp x\<bar> * ulp x
        = \<bar>(of_int (rhe (x / ulp x)) - x / ulp x) * ulp x\<bar>"
      using u by (simp add: abs_mult)
    also have "(of_int (rhe (x / ulp x)) - x / ulp x) * ulp x = of_int (rhe (x / ulp x)) * ulp x - x"
      using u by (simp add: field_simps)
    finally show ?thesis .
  qed
  ultimately show ?thesis using False by (simp add: rtd_def)
qed

lemma ulp_normal:
  assumes "2 powi (- 1022) \<le> \<bar>x\<bar>"
  shows "ulp x = 2 powi (expo x - 52)" "ulp x \<le> 2 powi (- 52) * \<bar>x\<bar>"
proof -
  have p: "0 < (2::real) powi (- 1022)" by simp
  have "0 < \<bar>x\<bar>" using assms p by linarith
  then have x0: "x \<noteq> 0" by auto
  from expo_bracket[OF x0]
  have b: "2 powi (expo x) \<le> \<bar>x\<bar>" "\<bar>x\<bar> < 2 powi (expo x + 1)" by auto
  have "(2::real) powi (- 1022) < 2 powi (expo x + 1)" using assms b(2) by linarith
  have e: "- 1022 \<le> expo x"
  proof (rule ccontr)
    assume "\<not> - 1022 \<le> expo x"
    then have "expo x + 1 \<le> - 1022" by simp
    then have "(2::real) powi (expo x + 1) \<le> 2 powi (- 1022)"
      by (rule power_int_increasing) simp
    with assms b(2) show False by linarith
  qed
  then show u: "ulp x = 2 powi (expo x - 52)" by (simp add: ulp_def max_def)
  have "(2::real) powi (expo x - 52) = 2 powi (- 52) * 2 powi (expo x)"
    by (simp add: power_int_diff power_int_minus_divide)
  also have "\<dots> \<le> 2 powi (- 52) * \<bar>x\<bar>"
    using b(1) by (simp add: mult_left_mono)
  finally show "ulp x \<le> 2 powi (- 52) * \<bar>x\<bar>" using u by simp
qed

lemma rtd_err_rel:
  assumes "2 powi (- 1022) \<le> \<bar>x\<bar>"
  shows "\<bar>rtd x - x\<bar> \<le> 2 powi (- 53) * \<bar>x\<bar>"
proof -
  have "\<bar>rtd x - x\<bar> \<le> ulp x / 2" by (rule rtd_err_abs)
  also have "\<dots> \<le> (2 powi (- 52) * \<bar>x\<bar>) / 2"
    using ulp_normal(2)[OF assms] by simp
  also have "\<dots> = 2 powi (- 53) * \<bar>x\<bar>"
    by (simp add: power_int_minus_divide)
  finally show ?thesis .
qed

lemma rtd_exact:
  assumes m: "\<bar>m\<bar> < 2 ^ 53" and j: "- 1074 \<le> j"
  shows "rtd (of_int m * 2 powi j) = of_int m * 2 powi j"
proof (cases "m = 0")
  case True
  then show ?thesis by (simp add: rtd_def)
next
  case False
  define x :: real where "x = of_int m * 2 powi j"
  have x0: "x \<noteq> 0" using False by (simp add: x_def)
  from expo_bracket[OF x0] have b: "2 powi (expo x) \<le> \<bar>x\<bar>" by simp
  have "\<bar>x\<bar> = of_int \<bar>m\<bar> * 2 powi j" by (simp add: x_def abs_mult)
  also have "\<dots> < of_int (2 ^ 53) * 2 powi j"
  proof (rule mult_strict_right_mono)
    show "(of_int \<bar>m\<bar> :: real) < of_int (2 ^ 53)" using m by (simp only: of_int_less_iff)
    show "0 < (2::real) powi j" by simp
  qed
  also have "\<dots> = 2 powi (53 + j)" by (simp add: power_int_add)
  finally have "(2::real) powi (expo x) < 2 powi (53 + j)" using b by linarith
  have e: "expo x < 53 + j"
  proof (rule ccontr)
    assume "\<not> expo x < 53 + j"
    then have "53 + j \<le> expo x" by simp
    then have "(2::real) powi (53 + j) \<le> 2 powi (expo x)"
      by (rule power_int_increasing) simp
    with \<open>(2::real) powi (expo x) < 2 powi (53 + j)\<close> show False by linarith
  qed
  define q where "q = max (expo x) (- 1022) - 52"
  have qj: "q \<le> j" using e j by (simp add: q_def max_def)
  have u: "ulp x = 2 powi q" by (simp add: ulp_def q_def)
  have "x / 2 powi q = of_int m * 2 powi (j - q)"
    by (simp add: x_def power_int_diff)
  also have "\<dots> = of_int m * 2 ^ nat (j - q)"
    using qj by (simp add: power_int_nonneg_exp)
  also have "\<dots> = of_int (m * 2 ^ nat (j - q))" by simp
  finally have "rhe (x / 2 powi q) = m * 2 ^ nat (j - q)"
    by (simp only: rhe_of_int)
  then have "rtd x = of_int (m * 2 ^ nat (j - q)) * 2 powi q"
    using x0 by (simp add: rtd_def u)
  also have "\<dots> = of_int m * (2 powi (j - q) * 2 powi q)"
    using qj by (simp add: power_int_nonneg_exp)
  also have "2 powi (j - q) * 2 powi q = (2::real) powi j"
    by (simp add: power_int_diff)
  finally show ?thesis by (simp add: x_def)
qed




lemma point_on_grid_iff:
  "vec_remainder_to_grid w step = Inr (rx, ry, rz) \<Longrightarrow>
   point_on_grid w step \<longleftrightarrow>
     float_le rx (epsilon step) \<and> float_le ry (epsilon step) \<and> float_le rz (epsilon step)"
  by (simp add: point_on_grid_def)

lemma loop_objects_scan:
  "loop_objects eps step max_r obs =
     scan_points eps step max_r (map (\<lambda>ob. translation (matrix_world ob)) obs)"
  by (induction obs arbitrary: max_r) (auto simp: Let_def split: sum.splits)

lemma loop_verts_scan:
  "loop_verts eps step mat max_r vs =
     scan_points eps step max_r (map (\<lambda>v. matmul mat (co v)) (filter select vs))"
  by (induction vs arbitrary: max_r) (auto simp: Let_def split: sum.splits)

lemma scan_points_any:
  assumes "\<forall>w \<in> set ws. \<exists>r. vec_remainder_to_grid w step = Inr r"
  shows "\<exists>m. scan_points (epsilon step) step max_r ws =
     Inr ((\<exists>w \<in> set ws. point_on_grid w step), m)"
  using assms
proof (induction ws arbitrary: max_r)
  case Nil
  then show ?case by simp
next
  case (Cons w ws)
  from Cons.prems obtain rx ry rz
    where r: "vec_remainder_to_grid w step = Inr (rx, ry, rz)"
    by (metis list.set_intros(1) prod_cases3)
  have rest: "\<forall>w \<in> set ws. \<exists>r. vec_remainder_to_grid w step = Inr r"
    using Cons.prems by simp
  show ?case
  proof (cases "point_on_grid w step")
    case True
    then show ?thesis using r by (simp add: point_on_grid_iff[OF r] Let_def)
  next
    case False
    from Cons.IH[OF rest, of "py_max (py_max (py_max max_r rx) ry) rz"]
    obtain m where "scan_points (epsilon step) step (py_max (py_max (py_max max_r rx) ry) rz) ws =
      Inr ((\<exists>w \<in> set ws. point_on_grid w step), m)" ..
    then show ?thesis using r False by (auto simp add: point_on_grid_iff[OF r] Let_def)
  qed
qed


lemma scan_points_raises:
  assumes "\<forall>p \<in> set pre. \<exists>r. vec_remainder_to_grid p step = Inr r \<and> \<not> point_on_grid p step"
    and "vec_remainder_to_grid w step = Inl e"
  shows "scan_points (epsilon step) step max_r (pre @ w # rest) = Inl e"
  using assms(1)
proof (induction pre arbitrary: max_r)
  case Nil
  show ?case using assms(2) by simp
next
  case (Cons p pre)
  from Cons.prems obtain rx ry rz
    where r: "vec_remainder_to_grid p step = Inr (rx, ry, rz)" and n: "\<not> point_on_grid p step"
    by (metis list.set_intros(1) prod_cases3)
  have rest: "\<forall>p \<in> set pre. \<exists>r. vec_remainder_to_grid p step = Inr r \<and> \<not> point_on_grid p step"
    using Cons.prems by simp
  from Cons.IH[OF rest, of "py_max (py_max (py_max max_r rx) ry) rz"]
  show ?case using r n by (auto simp add: point_on_grid_iff[OF r] Let_def)
qed

text \<open>The oracle's outcome is the outcome of the scan over the selection points.\<close>

lemma oracle_scan:
  "map_sum id fst (selection_has_any_on_grid ctx step) =
   map_sum id fst (scan_points (epsilon step) step (Fin 0) (selection_points ctx))"
proof (cases "active_object ctx")
  case None
  then show ?thesis by (simp add: selection_has_any_on_grid_def selection_points_def)
next
  case (Some a)
  show ?thesis
  proof (cases "mode ctx = ''OBJECT''")
    case True
    then show ?thesis using Some
      by (simp add: selection_has_any_on_grid_def selection_points_def Let_def
          loop_objects_scan comp_def split: sum.splits prod.splits)
  next
    case False
    show ?thesis
    proof (cases "obj_type (objects ctx a) = ''MESH'' \<and> mode ctx = ''EDIT_MESH''")
      case True
      then show ?thesis using Some False
        by (simp add: selection_has_any_on_grid_def selection_points_def Let_def
            loop_verts_scan split: sum.splits prod.splits)
    next
      case F2: False
      then show ?thesis using Some False
        by (auto simp add: selection_has_any_on_grid_def selection_points_def Let_def
            split: sum.splits prod.splits)
    qed
  qed
qed


lemma oracle_raises:
  "scan_points (epsilon step) step (Fin 0) (selection_points ctx) = Inl e \<Longrightarrow>
   selection_has_any_on_grid ctx step = Inl e"
  using oracle_scan[of ctx step]
  by (cases "selection_has_any_on_grid ctx step") auto




lemma fl_0: "fl 0 = Fin 0"
  by (simp add: fl_def rtd_0)

lemma rtd_nonneg: "0 \<le> x \<Longrightarrow> 0 \<le> rtd x"
proof -
  assume x: "0 \<le> x"
  have "0 \<le> x / ulp x" using x ulp_pos[of x] by simp
  then have "rhe 0 \<le> rhe (x / ulp x)" by (rule rhe_mono)
  then have "0 \<le> rhe (x / ulp x)" using rhe_of_int[of 0] by simp
  then show ?thesis using ulp_pos[of x] by (simp add: rtd_def)
qed

lemma fl_nonneg:
  assumes "0 \<le> x"
  shows "float_le (Fin 0) (fl x)"
proof -
  have "0 \<le> rtd x" using assms by (rule rtd_nonneg)
  then show ?thesis
  proof (cases "0 < x")
    case True
    then show ?thesis using \<open>0 \<le> rtd x\<close> by (simp add: fl_def Let_def)
  next
    case False
    with assms have "x = 0" by simp
    then show ?thesis by (simp add: fl_0)
  qed
qed

lemma rtd_eval:
  assumes "2 powi e \<le> \<bar>x\<bar>" "\<bar>x\<bar> < 2 powi (e + 1)" "- 1022 \<le> e"
  shows "rtd x = of_int (rhe (x / 2 powi (e - 52))) * 2 powi (e - 52)"
proof -
  have e: "expo x = e" using assms(1,2) by (rule expo_eqI)
  have p: "0 < (2::real) powi e" by simp
  have "0 < \<bar>x\<bar>" using assms(1) p by linarith
  then have "x \<noteq> 0" by auto
  then show ?thesis using assms(3) by (simp add: rtd_def ulp_def e max_def)
qed

lemma lit_1e_5_eq: "lit_1e_5 = Fin (5902958103587057 / 2 ^ 69)"
proof -
  have "rtd (1 / 100000) = of_int (rhe ((1 / 100000) / 2 powi (- 17 - 52))) * 2 powi (- 17 - 52)"
    by (rule rtd_eval) simp_all
  also have "\<dots> = 5902958103587057 / 2 ^ 69"
    by (simp add: rhe_def)
  finally show ?thesis by (simp add: lit_1e_5_def fl_def)
qed

lemma lit_1e_6_eq: "lit_1e_6 = Fin (4722366482869645 / 2 ^ 72)"
proof -
  have "rtd (1 / 1000000) = of_int (rhe ((1 / 1000000) / 2 powi (- 20 - 52))) * 2 powi (- 20 - 52)"
    by (rule rtd_eval) simp_all
  also have "\<dots> = 4722366482869645 / 2 ^ 72"
    by (simp add: rhe_def)
  finally show ?thesis by (simp add: lit_1e_6_def fl_def)
qed

lemma epsilon_nonneg: "float_le (Fin 0) (epsilon step)"
proof (cases "float_lt lit_1e_5 (float_mul step lit_1e_6)")
  case True
  then show ?thesis
    by (cases "float_mul step lit_1e_6") (auto simp: epsilon_def py_max_def lit_1e_5_eq)
next
  case False
  then show ?thesis by (simp add: epsilon_def py_max_def lit_1e_5_eq)
qed

lemma remainder_to_grid_0:
  assumes "0 < s"
  shows "remainder_to_grid (Fin 0) (Fin s) = Inr (Fin 0)"
  using assms
  by (simp add: remainder_to_grid_def py_truediv_def fl_0 rhe_of_int[of 0, simplified]
      int_mul_def float_of_int_def)

lemma origin_on_grid:
  assumes "0 < s"
  shows "vec_remainder_to_grid (Fin 0, Fin 0, Fin 0) (Fin s) = Inr (Fin 0, Fin 0, Fin 0)"
    and "point_on_grid (Fin 0, Fin 0, Fin 0) (Fin s)"
  using assms epsilon_nonneg[of "Fin s"]
  by (simp_all add: point_on_grid_def vec_remainder_to_grid_def remainder_to_grid_0)


lemma fl_exact:
  assumes "\<bar>m\<bar> < 2 ^ 53" "- 1074 \<le> j" "\<bar>(of_int m :: real) * 2 powi j\<bar> < 2 ^ 1024"
  shows "fl (of_int m * 2 powi j) = Fin (of_int m * 2 powi j)"
  using assms(3) by (simp add: fl_def Let_def rtd_exact[OF assms(1,2)])

lemma fl_of_int:
  assumes "\<bar>k\<bar> < 2 ^ 53"
  shows "fl (of_int k) = Fin (of_int k)"
proof -
  have "\<bar>(of_int k :: real) * 2 powi 0\<bar> < 2 ^ 1024"
  proof -
    have "\<bar>(of_int k :: real)\<bar> = of_int \<bar>k\<bar>" by simp
    also have "\<dots> < of_int (2 ^ 53)" using assms by (simp only: of_int_less_iff)
    also have "\<dots> < 2 ^ 1024" by simp
    finally show ?thesis by simp
  qed
  from fl_exact[OF assms _ this] show ?thesis by simp
qed

lemma float_of_int_small: "\<bar>k\<bar> < 2 ^ 53 \<Longrightarrow> float_of_int k = Inr (Fin (of_int k))"
  by (simp add: float_of_int_def fl_of_int)

lemma fl_half: "fl (1/2) = Fin (1/2)"
  using fl_exact[of 1 "-1"] by (simp add: power_int_minus_divide)

lemma fl_lit_1e_6_val: "fl (4722366482869645 / 2 ^ 72) = Fin (4722366482869645 / 2 ^ 72)"
  using fl_exact[of 4722366482869645 "- 72"] by (simp add: power_int_minus_divide)

lemma epsilon_1: "epsilon (Fin 1) = lit_1e_5"
proof -
  have m: "float_mul (Fin 1) lit_1e_6 = Fin (4722366482869645 / 2 ^ 72)"
    by (simp only: lit_1e_6_eq float_mul.simps mult_1 fl_lit_1e_6_val)
  show ?thesis by (simp add: epsilon_def m lit_1e_5_eq py_max_def)
qed

lemma remainder_to_grid_half: "remainder_to_grid (Fin (1/2)) (Fin 1) = Inr (Fin (1/2))"
proof -
  have r: "rhe (1/2) = 0" by (simp add: rhe_def)
  show ?thesis
    by (simp add: remainder_to_grid_def py_truediv_def fl_half r int_mul_def float_of_int_def fl_0)
qed

lemma half_off_grid:
  "vec_remainder_to_grid (Fin (1/2), Fin 0, Fin 0) (Fin 1) = Inr (Fin (1/2), Fin 0, Fin 0)"
  "\<not> float_le (Fin (1/2)) (epsilon (Fin 1))"
  by (simp_all add: vec_remainder_to_grid_def remainder_to_grid_half remainder_to_grid_0
      epsilon_1 lit_1e_5_eq)

lemma oracle_ignores_settings:
  "selection_has_any_on_grid (ctx\<lparr>scene := sc\<rparr>) step = selection_has_any_on_grid ctx step"
  "selection_has_any_on_grid (ctx\<lparr>windows := ws\<rparr>) step = selection_has_any_on_grid ctx step"
  by (simp_all add: selection_has_any_on_grid_def Let_def cong: if_cong option.case_cong)

lemma apply_tool_snap_result:
  assumes "scene ctx = Some sc"
  shows "\<exists>ctx'. apply_tool_snap ctx = Inr ctx'
     \<and> absolute_flag ctx' = absolute_flag ctx
     \<and> (\<exists>sc'. scene ctx' = Some sc' \<and> hg sc' = hg sc)
     \<and> selection_has_any_on_grid ctx' step = selection_has_any_on_grid ctx step"
proof (cases "scene_tool_settings sc")
  case None
  then show ?thesis using assms by (simp add: apply_tool_snap_def)
next
  case (Some ts)
  define ts' where "ts' = ts\<lparr>use_snap := True, snap_elements := {''INCREMENT''},
      snap_angle := (case snap_angle ts of None \<Rightarrow> None
         | Some old \<Rightarrow> Some (float_div (float_mul (Fin 15) py_pi) (Fin 180)))\<rparr>"
  define ctx1 where "ctx1 = ctx\<lparr>scene := Some (sc\<lparr>scene_tool_settings := Some ts'\<rparr>)\<rparr>"
  define ctx2 where "ctx2 = ctx1\<lparr>windows := map (map (sync_area (grid_size (hg sc)))) (windows ctx1)\<rparr>"
  have a: "apply_tool_snap ctx = sync_viewport_grid ctx1"
    using assms Some by (simp add: apply_tool_snap_def ctx1_def ts'_def Let_def)
  have s: "sync_viewport_grid ctx1 = Inr ctx2"
    by (simp add: sync_viewport_grid_def ctx1_def ctx2_def)
  have f: "absolute_flag ctx2 = absolute_flag ctx"
    using assms Some by (simp add: absolute_flag_def ctx2_def ctx1_def ts'_def)
  have h: "scene ctx2 = Some (sc\<lparr>scene_tool_settings := Some ts'\<rparr>)"
    by (simp add: ctx2_def ctx1_def)
  have o: "selection_has_any_on_grid ctx2 step = selection_has_any_on_grid ctx step"
    by (simp add: ctx2_def ctx1_def oracle_ignores_settings)
  show ?thesis using a s f h o by simp
qed

lemma set_absolute_snap_flag:
  "absolute_flag ctx = Some old \<Longrightarrow> absolute_flag (set_absolute_snap ctx b) = Some b"
  by (auto simp: set_absolute_snap_def absolute_flag_def split: option.splits)

lemma quantize_objects_frame:
  "quantize_objects step js st = (st', r) \<Longrightarrow>
     (\<forall>i. i \<notin> set js \<longrightarrow> st' i = st i) \<and> (\<forall>i. \<exists>l. st' i = (st i)\<lparr>location := l\<rparr>)"
proof (induction js arbitrary: st)
  case Nil
  then have "st' = st" by simp
  moreover have "\<And>i. st i = (st i)\<lparr>location := location (st i)\<rparr>" by simp
  ultimately show ?case by metis
next
  case (Cons j js)
  show ?case
  proof (cases "quantize_vector_world (location (st j)) step")
    case (Inl e)
    with Cons.prems have "st' = st" by simp
    moreover have "\<And>i. st i = (st i)\<lparr>location := location (st i)\<rparr>" by simp
    ultimately show ?thesis by metis
  next
    case (Inr q)
    define st1 where "st1 = st(j := (st j)\<lparr>location := q\<rparr>)"
    from Cons.prems Inr have "quantize_objects step js st1 = (st', r)" by (simp add: st1_def)
    from Cons.IH[OF this]
    have ih: "\<forall>i. i \<notin> set js \<longrightarrow> st' i = st1 i" "\<forall>i. \<exists>l. st' i = (st1 i)\<lparr>location := l\<rparr>"
      by auto
    have a: "\<forall>i. i \<notin> set (j # js) \<longrightarrow> st' i = st i"
      using ih(1) by (simp add: st1_def)
    have b: "\<exists>l. st' i = (st i)\<lparr>location := l\<rparr>" for i
    proof -
      from ih(2) obtain l where l: "st' i = (st1 i)\<lparr>location := l\<rparr>" by blast
      show ?thesis
      proof (cases "i = j")
        case True
        with l have "st' i = (st i)\<lparr>location := l\<rparr>" by (simp add: st1_def)
        then show ?thesis ..
      next
        case False
        with l have "st' i = (st i)\<lparr>location := l\<rparr>" by (simp add: st1_def)
        then show ?thesis ..
      qed
    qed
    from a b show ?thesis by blast
  qed
qed

lemma quantize_verts_frame:
  "quantize_verts step mat minv vs = (vs', r) \<Longrightarrow>
     length vs' = length vs \<and>
     (\<forall>j < length vs. (\<not> select (vs ! j) \<longrightarrow> vs' ! j = vs ! j) \<and>
        (\<exists>c. vs' ! j = (vs ! j)\<lparr>co := c\<rparr>))"
proof (induction vs arbitrary: vs' r)
  case Nil
  then show ?case by simp
next
  case (Cons v vs)
  have same: "\<And>w :: bvert. \<exists>c. w = w\<lparr>co := c\<rparr>"
  proof -
    fix w :: bvert
    have "w = w\<lparr>co := co w\<rparr>" by simp
    then show "\<exists>c. w = w\<lparr>co := c\<rparr>" ..
  qed
  show ?case
  proof (cases "select v \<and> (\<exists>e. quantize_vector_world (mat (co v)) step = Inl e)")
    case True
    with Cons.prems have "vs' = v # vs" by auto
    then show ?thesis using same by simp
  next
    case False
    obtain ws r1 where rec: "quantize_verts step mat minv vs = (ws, r1)" by (cases "quantize_verts step mat minv vs")
    from Cons.IH[OF rec]
    have ih: "length ws = length vs"
      "\<forall>j < length vs. (\<not> select (vs ! j) \<longrightarrow> ws ! j = vs ! j) \<and> (\<exists>c. ws ! j = (vs ! j)\<lparr>co := c\<rparr>)"
      by auto
    have "\<exists>v'. vs' = v' # ws \<and> (\<not> select v \<longrightarrow> v' = v) \<and> (\<exists>c. v' = v\<lparr>co := c\<rparr>)"
    proof (cases "select v")
      case True
      with False obtain q where q: "quantize_vector_world (mat (co v)) step = Inr q"
        by (cases "quantize_vector_world (mat (co v)) step") auto
      from Cons.prems rec True q have "vs' = v\<lparr>co := minv q\<rparr> # ws" by simp
      with True show ?thesis by blast
    next
      case False
      with Cons.prems rec have "vs' = v # ws" by simp
      with False same[of v] show ?thesis by blast
    qed
    then obtain v' where v': "vs' = v' # ws"
      "\<not> select v \<longrightarrow> v' = v" "\<exists>c. v' = v\<lparr>co := c\<rparr>" by blast
    show ?thesis
    proof (intro conjI allI impI)
      show "length vs' = length (v # vs)" using v'(1) ih(1) by simp
    next
      fix j assume "j < length (v # vs)" "\<not> select ((v # vs) ! j)"
      then show "vs' ! j = (v # vs) ! j" using v' ih(2) by (cases j) auto
    next
      fix j assume "j < length (v # vs)"
      then show "\<exists>c. vs' ! j = ((v # vs) ! j)\<lparr>co := c\<rparr>" using v' ih(2) by (cases j) auto
    qed
  qed
qed

lemma float_lt_imp_le: "float_lt a b \<Longrightarrow> float_le a b"
  by (cases a; cases b) auto

lemma float_le_refl_Fin: "float_le (Fin a) (Fin a)"
  by simp

lemma fl_bounds:
  assumes "2 powi (- 1022) \<le> x" "x * (1 + 2 powi (- 53)) < 2 ^ 1024"
  shows "\<exists>r. fl x = Fin r \<and> x * (1 - 2 powi (- 53)) \<le> r \<and> r \<le> x * (1 + 2 powi (- 53))"
proof -
  have p: "0 < (2::real) powi (- 1022)" by simp
  have x0: "0 < x" using assms(1) p by linarith
  define d :: real where "d = 2 powi (- 53)"
  have "\<bar>rtd x - x\<bar> \<le> 2 powi (- 53) * \<bar>x\<bar>"
    using assms(1) x0 by (intro rtd_err_rel) simp
  then have e: "\<bar>rtd x - x\<bar> \<le> d * x" using x0 by (simp add: d_def)
  have "x * (1 - d) \<le> rtd x \<and> rtd x \<le> x * (1 + d)"
    using e by (auto simp: abs_le_iff algebra_simps)
  then have lo: "x * (1 - 2 powi (- 53)) \<le> rtd x" and hi: "rtd x \<le> x * (1 + 2 powi (- 53))"
    unfolding d_def by blast+
  have "0 \<le> rtd x" using x0 by (intro rtd_nonneg) simp
  then have "\<bar>rtd x\<bar> < 2 ^ 1024" using hi assms(2) by simp
  then have "fl x = Fin (rtd x)" by (simp add: fl_def Let_def)
  with lo hi show ?thesis by blast
qed

lemma step_down_lower: "float_le lit_1e_6 (step_down g)"
  by (simp add: step_down_def py_max_def float_lt_imp_le lit_1e_6_eq)

lemma step_up_upper: "float_le (step_up g) lit_1e6"
  by (simp add: step_up_def py_min_def float_lt_imp_le lit_1e6_def)

lemma step_in_range:
  assumes "float_le lit_1e_6 g" "float_le g lit_1e6"
  shows "float_le (step_down g) lit_1e6" "float_le lit_1e_6 (step_up g)"
proof -
  from assms obtain x where g: "g = Fin x" and lo: "4722366482869645 / 2 ^ 72 \<le> x"
    and hi: "x \<le> 1000000"
    by (cases g) (auto simp: lit_1e_6_eq lit_1e6_def)
  have "(0::real) < 4722366482869645 / 2 ^ 72" by simp
  with lo have x0: "0 < x" by linarith
  have "(2::real) powi (- 1022) \<le> 4722366482869645 / 2 ^ 72 / 2"
    by (simp add: power_int_minus_divide)
  then have n1: "2 powi (- 1022) \<le> x * (1/2)" using lo by simp
  have "(1000000::real) * (1/2) * (1 + 2 powi (- 53)) \<le> 1000000"
    by (simp add: power_int_minus_divide)
  moreover have "x * (1/2) * (1 + 2 powi (- 53)) \<le> 1000000 * (1/2) * (1 + 2 powi (- 53))"
    using hi by (intro mult_right_mono) simp_all
  ultimately have b1: "x * (1/2) * (1 + 2 powi (- 53)) \<le> 1000000" by linarith
  then have "x * (1/2) * (1 + 2 powi (- 53)) < 2 ^ 1024" by simp
  from fl_bounds[OF n1 this] obtain r where r: "fl (x * (1/2)) = Fin r"
    "r \<le> x * (1/2) * (1 + 2 powi (- 53))" by blast
  have "r \<le> 1000000" using r(2) b1 by linarith
  then show "float_le (step_down g) lit_1e6"
    using g r(1) by (simp add: step_down_def py_max_def lit_1e_6_eq lit_1e6_def)
  have n2: "2 powi (- 1022) \<le> x * 2" using n1 x0 by linarith
  have "x * 2 * (1 + 2 powi (- 53)) \<le> 1000000 * 2 * (1 + 2 powi (- 53))"
    using hi by (intro mult_right_mono) simp_all
  also have "\<dots> < 2 ^ 1024" by (simp add: power_int_minus_divide)
  finally have "x * 2 * (1 + 2 powi (- 53)) < 2 ^ 1024" .
  from fl_bounds[OF n2 this] obtain r2 where r2: "fl (x * 2) = Fin r2"
    "x * 2 * (1 - 2 powi (- 53)) \<le> r2" by blast
  have "(1::real) \<le> 2 * (1 - 2 powi (- 53))" by (simp add: power_int_minus_divide)
  then have "x * 1 \<le> x * (2 * (1 - 2 powi (- 53)))" using x0 by (intro mult_left_mono) simp_all
  then have "x \<le> r2" using r2(2) by (simp add: algebra_simps)
  then have "4722366482869645 / 2 ^ 72 \<le> r2" using lo by linarith
  then show "float_le lit_1e_6 (step_up g)"
    using g r2(1) by (simp add: step_up_def py_min_def lit_1e_6_eq lit_1e6_def)
qed

lemma step_down_at_min: "step_down lit_1e_6 = lit_1e_6"
proof -
  have "fl (4722366482869645 / 2 ^ 72 * (1/2)) = Fin (4722366482869645 / 2 ^ 73)"
    using fl_exact[of 4722366482869645 "- 73"] by (simp add: power_int_minus_divide)
  then have "float_mul lit_1e_6 (Fin (1/2)) = Fin (4722366482869645 / 2 ^ 73)"
    by (simp only: lit_1e_6_eq float_mul.simps)
  then show ?thesis by (simp add: step_down_def py_max_def lit_1e_6_eq)
qed

lemma step_up_at_max: "step_up lit_1e6 = lit_1e6"
proof -
  have "fl (1000000 * 2) = Fin 2000000" using fl_of_int[of 2000000] by simp
  then show ?thesis by (simp add: step_up_def py_min_def lit_1e6_def)
qed

lemma step_down_4e6: "step_down (Fin 4000000) = Fin 2000000"
proof -
  have "fl (4000000 * (1/2)) = Fin 2000000" using fl_of_int[of 2000000] by simp
  then show ?thesis by (simp add: step_down_def py_max_def lit_1e_6_eq)
qed

lemma grid_step_operators:
  assumes "grid_step ctx = Some g"
  shows "snd (HG_OT_grid_step_down_execute ctx) = Inr FINISHED"
    "grid_step (fst (HG_OT_grid_step_down_execute ctx)) = Some (store_grid_size (step_down g))"
    "snd (HG_OT_grid_step_up_execute ctx) = Inr FINISHED"
    "grid_step (fst (HG_OT_grid_step_up_execute ctx)) = Some (store_grid_size (step_up g))"
proof -
  from assms obtain sc where sc: "scene ctx = Some sc" "grid_size (hg sc) = g"
    by (auto simp: grid_step_def split: option.splits)
  have *: "snd (case sync_viewport_grid c1 of Inl e \<Rightarrow> (c1, Inl e)
        | Inr c2 \<Rightarrow> (case apply_tool_snap c2 of Inl e \<Rightarrow> (c2, Inl e) | Inr c3 \<Rightarrow> (c3, Inr FINISHED)))
        = Inr FINISHED
      \<and> grid_step (fst (case sync_viewport_grid c1 of Inl e \<Rightarrow> (c1, Inl e)
        | Inr c2 \<Rightarrow> (case apply_tool_snap c2 of Inl e \<Rightarrow> (c2, Inl e) | Inr c3 \<Rightarrow> (c3, Inr FINISHED))))
        = Some h"
    if "scene c1 = Some s1" "grid_size (hg s1) = h" for c1 s1 h
  proof -
    define c2 where "c2 = c1\<lparr>windows := map (map (sync_area (grid_size (hg s1)))) (windows c1)\<rparr>"
    have s: "sync_viewport_grid c1 = Inr c2" using that by (simp add: sync_viewport_grid_def c2_def)
    have sc2: "scene c2 = Some s1" using that by (simp add: c2_def)
    from apply_tool_snap_result[OF sc2, of "Fin 0"] obtain c3 s3 where
      c3: "apply_tool_snap c2 = Inr c3" "scene c3 = Some s3" "hg s3 = hg s1" by auto
    show ?thesis using s c3 that by (simp add: grid_step_def)
  qed
  have d: "scene (set_grid_size ctx h) = Some (sc\<lparr>hg := (hg sc)\<lparr>grid_size := store_grid_size h\<rparr>\<rparr>)" for h
    using sc by (simp add: set_grid_size_def)
  from *[OF d[of "step_down g"], of "store_grid_size (step_down g)"]
  show "snd (HG_OT_grid_step_down_execute ctx) = Inr FINISHED"
    "grid_step (fst (HG_OT_grid_step_down_execute ctx)) = Some (store_grid_size (step_down g))"
    using sc by (simp_all add: HG_OT_grid_step_down_execute_def Let_def)
  from *[OF d[of "step_up g"], of "store_grid_size (step_up g)"]
  show "snd (HG_OT_grid_step_up_execute ctx) = Inr FINISHED"
    "grid_step (fst (HG_OT_grid_step_up_execute ctx)) = Some (store_grid_size (step_up g))"
    using sc by (simp_all add: HG_OT_grid_step_up_execute_def Let_def)
qed


lemma rhe_nearest: "\<bar>of_int (rhe y) - y\<bar> \<le> \<bar>of_int m - y\<bar>"
proof -
  define f where "f = \<lfloor>y\<rfloor>"
  have f: "of_int f \<le> y" "y < of_int f + 1" unfolding f_def by linarith+
  have c: "rhe y = f \<or> rhe y = f + 1" using rhe_cases[of y] by (simp add: f_def)
  have e: "\<bar>of_int (rhe y) - y\<bar> \<le> 1/2" by (rule rhe_err)
  show ?thesis
  proof (cases "m \<le> f")
    case True
    then have "(of_int m :: real) \<le> of_int f" by simp
    then have m: "\<bar>of_int m - y\<bar> \<ge> y - of_int f" using f by linarith
    from c show ?thesis
    proof
      assume "rhe y = f"
      then show ?thesis using m f by simp
    next
      assume r: "rhe y = f + 1"
      then have "of_int f + 1 - y \<le> 1/2" using e f by simp
      then show ?thesis using m f r by simp
    qed
  next
    case False
    then have "f + 1 \<le> m" by simp
    then have "(of_int (f + 1) :: real) \<le> of_int m" by (simp only: of_int_le_iff)
    then have m: "\<bar>of_int m - y\<bar> \<ge> of_int f + 1 - y" using f by simp
    from c show ?thesis
    proof
      assume r: "rhe y = f"
      then have "y - of_int f \<le> 1/2" using e f by simp
      then show ?thesis using m f r by simp
    next
      assume "rhe y = f + 1"
      then show ?thesis using m f by simp
    qed
  qed
qed

lemma rtd_exact_le:
  assumes m: "\<bar>m\<bar> \<le> 2 ^ 53" and j: "- 1074 \<le> j"
  shows "rtd (of_int m * 2 powi j) = of_int m * 2 powi j"
proof (cases "\<bar>m\<bar> < 2 ^ 53")
  case True
  then show ?thesis using j by (rule rtd_exact)
next
  case False
  with m have "\<bar>m\<bar> = 2 ^ 53" by simp
  then have "m = 2 ^ 53 \<or> m = - (2 ^ 53)" by linarith
  then have "(of_int m :: real) * 2 powi j = of_int 1 * 2 powi (j + 53)
      \<or> (of_int m :: real) * 2 powi j = of_int (- 1) * 2 powi (j + 53)"
    by (auto simp: power_int_add)
  moreover have "rtd (of_int 1 * 2 powi (j + 53)) = of_int 1 * 2 powi (j + 53)"
    using j by (intro rtd_exact) simp_all
  moreover have "rtd (of_int (- 1) * 2 powi (j + 53)) = of_int (- 1) * 2 powi (j + 53)"
    using j by (intro rtd_exact) simp_all
  ultimately show ?thesis by metis
qed

text \<open>The bucket of a positive real: its exponent, never below -1022, and its spacing.\<close>

lemma bucket:
  assumes "0 < z"
  shows "z < 2 powi (max (expo z) (- 1022) + 1)"
    and "- 1022 \<le> expo z \<Longrightarrow> 2 powi (max (expo z) (- 1022)) \<le> z"
    and "rtd z = of_int (rhe (z / ulp z)) * ulp z"
    and "0 \<le> rhe (z / ulp z)" and "rhe (z / ulp z) \<le> 2 ^ 53"
    and "- 1022 \<le> expo z \<Longrightarrow> 2 ^ 52 \<le> rhe (z / ulp z)"
    and "ulp z = 2 powi (max (expo z) (- 1022) - 52)"
proof -
  have z0: "z \<noteq> 0" using assms by simp
  from expo_bracket[OF z0] assms
  have b: "2 powi (expo z) \<le> z" "z < 2 powi (expo z + 1)" by simp_all
  define e where "e = max (expo z) (- 1022)"
  have ee: "expo z \<le> e" by (simp add: e_def)
  have "(2::real) powi (expo z + 1) \<le> 2 powi (e + 1)"
    using ee by (intro power_int_increasing) simp_all
  then show hi: "z < 2 powi (max (expo z) (- 1022) + 1)" using b(2) by (simp add: e_def)
  show lo: "- 1022 \<le> expo z \<Longrightarrow> 2 powi (max (expo z) (- 1022)) \<le> z"
    using b(1) by (simp add: max_def)
  show "rtd z = of_int (rhe (z / ulp z)) * ulp z" using z0 by (simp add: rtd_def)
  show u: "ulp z = 2 powi (max (expo z) (- 1022) - 52)" by (simp add: ulp_def)
  have up: "0 < ulp z" by (rule ulp_pos)
  have "0 \<le> z / ulp z" using assms up by simp
  then have "rhe 0 \<le> rhe (z / ulp z)" by (rule rhe_mono)
  then show "0 \<le> rhe (z / ulp z)" using rhe_of_int[of 0] by simp
  have pe: "(2::real) powi (e + 1) = 2 ^ 53 * 2 powi (e - 52)"
  proof -
    have "(2::real) powi (e + 1) = 2 powi (53 + (e - 52))"
      by (rule arg_cong[where f="\<lambda>n. 2 powi n"]) simp
    also have "\<dots> = 2 powi 53 * 2 powi (e - 52)" by (rule power_int_add) simp
    finally show ?thesis by simp
  qed
  have "z / ulp z \<le> 2 ^ 53"
    using hi up pe by (simp add: u e_def[symmetric] field_simps)
  then have "rhe (z / ulp z) \<le> rhe (of_int (2 ^ 53))"
    by (intro rhe_mono) simp
  then show "rhe (z / ulp z) \<le> 2 ^ 53" by (simp only: rhe_of_int)
  show "2 ^ 52 \<le> rhe (z / ulp z)" if n: "- 1022 \<le> expo z"
  proof -
    have pl: "(2::real) powi e = 2 ^ 52 * 2 powi (e - 52)"
    proof -
      have "(2::real) powi e = 2 powi (52 + (e - 52))"
        by (rule arg_cong[where f="\<lambda>n. 2 powi n"]) simp
      also have "\<dots> = 2 powi 52 * 2 powi (e - 52)" by (rule power_int_add) simp
      finally show ?thesis by simp
    qed
    have "2 ^ 52 \<le> z / ulp z"
      using lo[OF n] up pl by (simp add: u e_def[symmetric] field_simps)
    then have "rhe (of_int (2 ^ 52)) \<le> rhe (z / ulp z)"
      by (intro rhe_mono) simp
    then show ?thesis by (simp only: rhe_of_int)
  qed
qed

lemma rtd_idem: "rtd (rtd z) = rtd z"
proof -
  have pos: "rtd (rtd z) = rtd z" if "0 < z" for z
  proof -
    from bucket[OF that]
    have r: "rtd z = of_int (rhe (z / ulp z)) * ulp z"
      and n: "0 \<le> rhe (z / ulp z)" "rhe (z / ulp z) \<le> 2 ^ 53"
      and u: "ulp z = 2 powi (max (expo z) (- 1022) - 52)" by auto
    have "rtd (of_int (rhe (z / ulp z)) * 2 powi (max (expo z) (- 1022) - 52))
        = of_int (rhe (z / ulp z)) * 2 powi (max (expo z) (- 1022) - 52)"
      using n by (intro rtd_exact_le) simp_all
    then show ?thesis by (simp add: r u[symmetric])
  qed
  show ?thesis
  proof (cases "0 < z")
    case True
    then show ?thesis by (rule pos)
  next
    case False
    show ?thesis
    proof (cases "z = 0")
      case True
      then show ?thesis by (simp add: rtd_0)
    next
      case F: False
      with False have "0 < - z" by simp
      from pos[OF this] show ?thesis by (simp add: rtd_minus)
    qed
  qed
qed


lemma expo_mono:
  assumes "0 < z" "z \<le> z'"
  shows "expo z \<le> expo z'"
proof (rule ccontr)
  assume "\<not> expo z \<le> expo z'"
  then have "expo z' + 1 \<le> expo z" by simp
  then have "(2::real) powi (expo z' + 1) \<le> 2 powi (expo z)"
    by (rule power_int_increasing) simp
  moreover have "2 powi (expo z) \<le> z" using expo_bracket[of z] assms(1) by simp
  moreover have "z' < 2 powi (expo z' + 1)" using expo_bracket[of z'] assms by simp
  ultimately show False using assms(2) by linarith
qed

lemma powi_split: "(2::real) powi (e + 1) = 2 ^ 53 * 2 powi (e - 52)" "(2::real) powi e = 2 ^ 52 * 2 powi (e - 52)"
proof -
  have "(2::real) powi (e + 1) = 2 powi (53 + (e - 52))"
    by (rule arg_cong[where f="\<lambda>n. 2 powi n"]) simp
  also have "\<dots> = 2 powi 53 * 2 powi (e - 52)" by (rule power_int_add) simp
  finally show "(2::real) powi (e + 1) = 2 ^ 53 * 2 powi (e - 52)" by simp
  have "(2::real) powi e = 2 powi (52 + (e - 52))"
    by (rule arg_cong[where f="\<lambda>n. 2 powi n"]) simp
  also have "\<dots> = 2 powi 52 * 2 powi (e - 52)" by (rule power_int_add) simp
  finally show "(2::real) powi e = 2 ^ 52 * 2 powi (e - 52)" by simp
qed

lemma rtd_range:
  assumes "0 < z"
  shows "rtd z \<le> 2 powi (max (expo z) (- 1022) + 1)"
    and "- 1022 \<le> expo z \<Longrightarrow> 2 powi (max (expo z) (- 1022)) \<le> rtd z"
proof -
  define e where "e = max (expo z) (- 1022)"
  from bucket[OF assms]
  have r: "rtd z = of_int (rhe (z / ulp z)) * ulp z"
    and n: "rhe (z / ulp z) \<le> 2 ^ 53" "- 1022 \<le> expo z \<Longrightarrow> 2 ^ 52 \<le> rhe (z / ulp z)"
    and u: "ulp z = 2 powi (e - 52)" by (auto simp: e_def)
  have up: "0 < ulp z" by (rule ulp_pos)
  have "(of_int (rhe (z / ulp z)) :: real) \<le> of_int (2 ^ 53)" using n(1) by (simp only: of_int_le_iff)
  then have "of_int (rhe (z / ulp z)) * ulp z \<le> 2 ^ 53 * ulp z"
    using up by (intro mult_right_mono) simp_all
  then show "rtd z \<le> 2 powi (max (expo z) (- 1022) + 1)"
    by (simp add: r u powi_split(1) e_def[symmetric])
  show "2 powi (max (expo z) (- 1022)) \<le> rtd z" if "- 1022 \<le> expo z"
  proof -
    have "(of_int (2 ^ 52) :: real) \<le> of_int (rhe (z / ulp z))"
      using n(2)[OF that] by (simp only: of_int_le_iff)
    then have "2 ^ 52 * ulp z \<le> of_int (rhe (z / ulp z)) * ulp z"
      using up by (intro mult_right_mono) simp_all
    then show ?thesis by (simp add: r u powi_split(2)[of e] e_def[symmetric])
  qed
qed

lemma rtd_mono_pos:
  assumes "0 < z" "z \<le> z'"
  shows "rtd z \<le> rtd z'"
proof -
  have z': "0 < z'" using assms by simp
  define e where "e = max (expo z) (- 1022)"
  define e' where "e' = max (expo z') (- 1022)"
  have "expo z \<le> expo z'" using assms by (rule expo_mono)
  then have ee: "e \<le> e'" by (simp add: e_def e'_def)
  show ?thesis
  proof (cases "e = e'")
    case True
    then have u: "ulp z = ulp z'" by (simp add: ulp_def e_def e'_def)
    have "z / ulp z' \<le> z' / ulp z'" using assms(2) ulp_pos[of z'] by (simp add: divide_right_mono)
    then have "rhe (z / ulp z') \<le> rhe (z' / ulp z')" by (rule rhe_mono)
    then have "(of_int (rhe (z / ulp z')) :: real) \<le> of_int (rhe (z' / ulp z'))" by simp
    then have "of_int (rhe (z / ulp z')) * ulp z' \<le> of_int (rhe (z' / ulp z')) * ulp z'"
      using ulp_pos[of z'] by (intro mult_right_mono) simp_all
    then show ?thesis using assms(1) z' by (simp add: rtd_def u)
  next
    case False
    with ee have lt: "e + 1 \<le> e'" by simp
    then have n': "- 1022 \<le> expo z'" by (auto simp: e_def e'_def max_def split: if_splits)
    have "rtd z \<le> 2 powi (e + 1)" using rtd_range(1)[OF assms(1)] by (simp add: e_def)
    also have "\<dots> \<le> 2 powi e'" using lt by (intro power_int_increasing) simp_all
    also have "\<dots> \<le> rtd z'" using rtd_range(2)[OF z' n'] by (simp add: e'_def)
    finally show ?thesis .
  qed
qed

lemma rtd_mono:
  assumes "z \<le> z'"
  shows "rtd z \<le> rtd z'"
proof -
  consider "0 < z" | "z \<le> 0" "0 \<le> z'" | "z' < 0" by linarith
  then show ?thesis
  proof cases
    case 1
    then show ?thesis using assms by (rule rtd_mono_pos)
  next
    case 2
    have "0 \<le> rtd (- z)" using 2(1) by (intro rtd_nonneg) simp
    then have "rtd z \<le> 0" by (simp add: rtd_minus)
    moreover have "0 \<le> rtd z'" using 2(2) by (rule rtd_nonneg)
    ultimately show ?thesis by linarith
  next
    case 3
    then have "0 < - z'" "- z' \<le> - z" using assms by simp_all
    then have "rtd (- z') \<le> rtd (- z)" by (rule rtd_mono_pos)
    then show ?thesis by (simp add: rtd_minus)
  qed
qed

text \<open>A grid value inside the bucket of \<open>z\<close> is a multiple of the spacing there.\<close>

lemma grid_multiple:
  assumes z: "0 < z" and d: "rtd d = d" "0 < d" "d \<le> 2 powi (max (expo z) (- 1022) + 1)"
    and lo: "- 1022 \<le> expo z \<longrightarrow> 2 powi (max (expo z) (- 1022)) \<le> d"
  shows "\<exists>m :: int. d = of_int m * ulp z"
proof -
  define e where "e = max (expo z) (- 1022)"
  have u: "ulp z = 2 powi (e - 52)" by (simp add: ulp_def e_def)
  show ?thesis
  proof (cases "d = 2 powi (e + 1)")
    case True
    then have "d = of_int (2 ^ 53) * ulp z" by (simp add: u powi_split(1))
    then show ?thesis ..
  next
    case False
    with d(3) have dl: "d < 2 powi (e + 1)" by (simp add: e_def)
    have "max (expo d) (- 1022) = e"
    proof (cases "- 1022 \<le> expo z")
      case True
      then have ez: "e = expo z" by (simp add: e_def)
      from lo True have "2 powi e \<le> d" by (simp add: e_def)
      then have "expo d = e" using dl d(2) by (intro expo_eqI) simp_all
      then show ?thesis using True ez by simp
    next
      case F: False
      then have ez: "e = - 1022" by (simp add: e_def)
      have "expo d < e + 1"
      proof (rule ccontr)
        assume "\<not> expo d < e + 1"
        then have "e + 1 \<le> expo d" by simp
        then have "(2::real) powi (e + 1) \<le> 2 powi (expo d)"
          by (rule power_int_increasing) simp
        moreover have "2 powi (expo d) \<le> d" using expo_bracket[of d] d(2) by simp
        ultimately show False using dl by linarith
      qed
      then show ?thesis using ez by simp
    qed
    then have "ulp d = ulp z" by (simp add: ulp_def e_def)
    moreover have "rtd d = of_int (rhe (d / ulp d)) * ulp d" using bucket(3)[OF d(2)] .
    ultimately have "d = of_int (rhe (d / ulp z)) * ulp z" using d(1) by simp
    then show ?thesis ..
  qed
qed


lemma rtd_nearest_pos:
  assumes d: "rtd d = d" and z: "0 < z"
  shows "\<bar>rtd z - z\<bar> \<le> \<bar>d - z\<bar>"
proof -
  define e where "e = max (expo z) (- 1022)"
  define u where "u = ulp z"
  define n where "n = rhe (z / u)"
  have up: "0 < u" by (simp add: u_def ulp_pos)
  from bucket[OF z]
  have zhi: "z < 2 powi (e + 1)" and zlo: "- 1022 \<le> expo z \<Longrightarrow> 2 powi e \<le> z"
    and r: "rtd z = of_int n * u" and n53: "n \<le> 2 ^ 53"
    and ue: "u = 2 powi (e - 52)"
    by (simp_all add: e_def u_def n_def)
  have err: "\<bar>rtd z - z\<bar> \<le> u / 2" unfolding u_def by (rule rtd_err_abs)
  have hi: "2 powi (e + 1) = 2 ^ 53 * u" and lo: "2 powi e = 2 ^ 52 * u"
    unfolding ue by (rule powi_split)+
  show ?thesis
  proof (cases "z \<le> d")
    case True
    show ?thesis
    proof (cases "z \<le> rtd z")
      case T2: True
      have "rtd z \<le> rtd d" using True by (rule rtd_mono)
      then show ?thesis using d T2 True by simp
    next
      case False
      then have rz: "of_int n * u < z" by (simp add: r)
      have "of_int n * u + u \<le> d"
      proof (rule ccontr)
        assume "\<not> of_int n * u + u \<le> d"
        then have dlt: "d < of_int n * u + u" by simp
        have "of_int n * u < 2 ^ 53 * u" using rz zhi hi by linarith
        then have "(of_int n :: real) < of_int (2 ^ 53)" using up by simp
        then have "n < 2 ^ 53" by (simp only: of_int_less_iff)
        then have "n + 1 \<le> 2 ^ 53" by simp
        then have "(of_int (n + 1) :: real) \<le> of_int (2 ^ 53)" by (simp only: of_int_le_iff)
        then have "of_int (n + 1) * u \<le> 2 ^ 53 * u" using up by (intro mult_right_mono) simp_all
        moreover have "of_int (n + 1) * u = of_int n * u + u" by (simp add: algebra_simps)
        ultimately have "d \<le> 2 powi (e + 1)"
          using dlt unfolding hi by linarith
        then have d1: "d \<le> 2 powi (max (expo z) (- 1022) + 1)" by (simp only: e_def)
        have d2: "- 1022 \<le> expo z \<longrightarrow> 2 powi (max (expo z) (- 1022)) \<le> d"
        proof
          assume "- 1022 \<le> expo z"
          from zlo[OF this] True have "2 powi e \<le> d" by linarith
          then show "2 powi (max (expo z) (- 1022)) \<le> d" by (simp only: e_def)
        qed
        have d0: "0 < d" using z True by simp
        from grid_multiple[OF z d d0 d1 d2] obtain m :: int where m: "d = of_int m * u"
          unfolding u_def by blast
        have "of_int n * u < of_int m * u" using rz True m by simp
        then have "(of_int n :: real) < of_int m" using up by simp
        then have 1: "n < m" by (simp only: of_int_less_iff)
        have "of_int (n + 1) * u = of_int n * u + u" by (simp add: algebra_simps)
        then have "of_int m * u < of_int (n + 1) * u"
          using dlt unfolding m by linarith
        then have "(of_int m :: real) < of_int (n + 1)" using up by (simp only: mult_less_cancel_right_pos)
        then have 2: "m < n + 1" by (simp only: of_int_less_iff)
        from 1 2 show False by simp
      qed
      then show ?thesis using err rz True unfolding r by linarith
    qed
  next
    case False
    then have dz: "d < z" by simp
    show ?thesis
    proof (cases "rtd z \<le> z")
      case True
      have "rtd d \<le> rtd z" using dz by (intro rtd_mono) simp
      then show ?thesis using d True dz by simp
    next
      case F2: False
      then have rz: "z < of_int n * u" by (simp add: r)
      have "d \<le> of_int n * u - u"
      proof (rule ccontr)
        assume "\<not> d \<le> of_int n * u - u"
        then have dgt: "of_int n * u - u < d" by simp
        have "0 < of_int n * u" using rz z by linarith
        then have "(0::real) < of_int n" using up by (simp add: zero_less_mult_iff)
        then have "1 \<le> n" by simp
        then have "(of_int 1 :: real) \<le> of_int n" by (simp only: of_int_le_iff)
        then have "1 * u \<le> of_int n * u" using up by (intro mult_right_mono) simp_all
        then have d0: "0 < d" using dgt by simp
        have "d \<le> 2 powi (e + 1)" using dz zhi by linarith
        then have d1: "d \<le> 2 powi (max (expo z) (- 1022) + 1)" by (simp only: e_def)
        have d2: "- 1022 \<le> expo z \<longrightarrow> 2 powi (max (expo z) (- 1022)) \<le> d"
        proof
          assume nrm: "- 1022 \<le> expo z"
          have "2 ^ 52 * u < of_int n * u" using zlo[OF nrm] rz lo by linarith
          then have "(of_int (2 ^ 52) :: real) < of_int n" using up by simp
          then have "2 ^ 52 < n" by (simp only: of_int_less_iff)
          then have "2 ^ 52 \<le> n - 1" by simp
          then have "(of_int (2 ^ 52) :: real) \<le> of_int (n - 1)" by (simp only: of_int_le_iff)
          then have "2 ^ 52 * u \<le> of_int (n - 1) * u" using up by (intro mult_right_mono) simp_all
          moreover have "of_int (n - 1) * u = of_int n * u - u" by (simp add: algebra_simps)
          ultimately have "2 powi e \<le> d"
            using dgt unfolding lo by linarith
          then show "2 powi (max (expo z) (- 1022)) \<le> d" by (simp only: e_def)
        qed
        from grid_multiple[OF z d d0 d1 d2] obtain m :: int where m: "d = of_int m * u"
          unfolding u_def by blast
        have "of_int m * u < of_int n * u" using rz dz m by simp
        then have "(of_int m :: real) < of_int n" using up by simp
        then have 1: "m < n" by (simp only: of_int_less_iff)
        have "of_int (n - 1) * u = of_int n * u - u" by (simp add: algebra_simps)
        then have "of_int (n - 1) * u < of_int m * u"
          using dgt unfolding m by linarith
        then have "(of_int (n - 1) :: real) < of_int m" using up by (simp only: mult_less_cancel_right_pos)
        then have 2: "n - 1 < m" by (simp only: of_int_less_iff)
        from 1 2 show False by simp
      qed
      then show ?thesis using err rz dz unfolding r by linarith
    qed
  qed
qed

lemma rtd_nearest:
  assumes "rtd d = d"
  shows "\<bar>rtd z - z\<bar> \<le> \<bar>d - z\<bar>"
proof -
  consider "0 < z" | "z = 0" | "z < 0" by linarith
  then show ?thesis
  proof cases
    case 1
    with assms show ?thesis by (rule rtd_nearest_pos)
  next
    case 2
    then show ?thesis by (simp add: rtd_0)
  next
    case 3
    have "rtd (- d) = - d" using assms by (simp add: rtd_minus)
    moreover have "0 < - z" using 3 by simp
    ultimately have "\<bar>rtd (- z) - (- z)\<bar> \<le> \<bar>(- d) - (- z)\<bar>" by (rule rtd_nearest_pos)
    then show ?thesis by (simp add: rtd_minus abs_minus_commute)
  qed
qed


lemma rtd_binade:
  assumes "2 powi e \<le> z" "z \<le> 2 powi (e + 1)" "- 1022 \<le> e"
  shows "rtd z = of_int (rhe (z / 2 powi (e - 52))) * 2 powi (e - 52)"
proof (cases "z = 2 powi (e + 1)")
  case True
  have "rtd (of_int 1 * 2 powi (e + 1)) = of_int 1 * 2 powi (e + 1)"
    using assms(3) by (intro rtd_exact) simp_all
  then have l: "rtd z = 2 powi (e + 1)" using True by simp
  have "z / 2 powi (e - 52) = of_int (2 ^ 53)"
    unfolding True powi_split(1)[of e] by simp
  then have "rhe (z / 2 powi (e - 52)) = 2 ^ 53" by (simp only: rhe_of_int)
  then show ?thesis unfolding l powi_split(1)[of e] by simp
next
  case False
  have p: "0 < (2::real) powi e" by simp
  have z0: "0 < z" using assms(1) p by linarith
  show ?thesis
    using assms False z0 by (intro rtd_eval) simp_all
qed

lemma rtd_mirror:
  assumes k: "rtd (of_int k) = of_int k" and e: "0 \<le> e"
    and kb: "2 powi e \<le> (of_int k :: real)" "(of_int k :: real) \<le> 2 powi (e + 1)"
    and z: "2 powi e \<le> z" "z \<le> 2 powi (e + 1)"
    and m: "2 powi e \<le> 2 * of_int k - z" "2 * of_int k - z \<le> 2 powi (e + 1)"
  shows "rtd (2 * of_int k - z) = 2 * of_int k - rtd z"
proof -
  define u :: real where "u = 2 powi (e - 52)"
  define K where "K = rhe (of_int k / u)"
  have up: "0 < u" by (simp add: u_def)
  have e': "- 1022 \<le> e" using e by simp
  have kk: "of_int k = of_int K * u"
    using rtd_binade[OF kb e'] k by (simp add: u_def K_def)
  have "(2 * of_int k - z) / u = of_int (2 * K) + (- (z / u))"
    using up by (simp add: kk field_simps)
  moreover have "even (2 * K)" by simp
  ultimately have "rhe ((2 * of_int k - z) / u) = 2 * K + rhe (- (z / u))"
    by (simp only: rhe_add_even)
  then have r: "rhe ((2 * of_int k - z) / u) = 2 * K - rhe (z / u)"
    by (simp add: rhe_minus)
  have "rtd (2 * of_int k - z) = of_int (rhe ((2 * of_int k - z) / u)) * u"
    using rtd_binade[OF m e'] by (simp add: u_def)
  also have "\<dots> = 2 * (of_int K * u) - of_int (rhe (z / u)) * u"
    unfolding r by (simp add: algebra_simps)
  also have "of_int (rhe (z / u)) * u = rtd z"
    using rtd_binade[OF z e'] by (simp add: u_def)
  finally show ?thesis by (simp add: kk)
qed

lemma rhe_mirror: "rhe (2 * of_int k - r) = 2 * k - rhe r"
proof -
  have "2 * of_int k - r = of_int (2 * k) + (- r)" by simp
  moreover have "even (2 * k)" by simp
  ultimately have "rhe (2 * of_int k - r) = 2 * k + rhe (- r)"
    by (simp only: rhe_add_even)
  then show ?thesis by (simp add: rhe_minus)
qed

lemma grid_repr:
  assumes "rtd s = s"
  shows "\<exists>m j. \<bar>m\<bar> \<le> 2 ^ 53 \<and> - 1074 \<le> j \<and> s = of_int m * 2 powi j"
proof -
  have pos: "\<exists>m j. \<bar>m\<bar> \<le> 2 ^ 53 \<and> - 1074 \<le> j \<and> s = of_int m * 2 powi j"
    if "rtd s = s" "0 < s" for s
  proof -
    from bucket[OF that(2)] that(1)
    have "s = of_int (rhe (s / ulp s)) * 2 powi (max (expo s) (- 1022) - 52)"
      and "0 \<le> rhe (s / ulp s)" "rhe (s / ulp s) \<le> 2 ^ 53" by auto
    moreover have "- 1074 \<le> max (expo s) (- 1022) - 52" by simp
    ultimately show ?thesis
      by (intro exI[of _ "rhe (s / ulp s)"] exI[of _ "max (expo s) (- 1022) - 52"]) simp
  qed
  consider "0 < s" | "s = 0" | "s < 0" by linarith
  then show ?thesis
  proof cases
    case 1
    with assms show ?thesis by (rule pos)
  next
    case 2
    then have "\<bar>0::int\<bar> \<le> 2 ^ 53 \<and> - 1074 \<le> (0::int) \<and> s = of_int 0 * 2 powi 0" by simp
    then show ?thesis by blast
  next
    case 3
    have "rtd (- s) = - s" using assms by (simp add: rtd_minus)
    from pos[OF this] 3 obtain m j where "\<bar>m\<bar> \<le> 2 ^ 53" "- 1074 \<le> j" "- s = of_int m * 2 powi j"
      by auto
    then have "\<bar>- m\<bar> \<le> 2 ^ 53 \<and> - 1074 \<le> j \<and> s = of_int (- m) * 2 powi j" by simp
    then show ?thesis by blast
  qed
qed

lemma rtd_scale:
  assumes "rtd s = s" "0 \<le> e"
  shows "rtd (2 powi e * s) = 2 powi e * s"
proof -
  from grid_repr[OF assms(1)] obtain m j where
    mj: "\<bar>m\<bar> \<le> 2 ^ 53" "- 1074 \<le> j" "s = of_int m * 2 powi j" by blast
  have "2 powi e * s = of_int m * 2 powi (j + e)"
    by (simp add: mj(3) power_int_add)
  moreover have "rtd (of_int m * 2 powi (j + e)) = of_int m * 2 powi (j + e)"
    using mj(1,2) assms(2) by (intro rtd_exact_le) simp_all
  ultimately show ?thesis by simp
qed

lemma rhe_grid:
  assumes "rtd q = q"
  shows "rtd (of_int (rhe q)) = of_int (rhe q)"
    and "\<bar>q\<bar> < 2 ^ 1024 \<Longrightarrow> \<bar>(of_int (rhe q) :: real)\<bar> < 2 ^ 1024"
proof -
  have pos: "rtd (of_int (rhe q)) = of_int (rhe q) \<and> (q < 2 ^ 1024 \<longrightarrow> (of_int (rhe q) :: real) < 2 ^ 1024)
      \<and> 0 \<le> rhe q"
    if q: "rtd q = q" "0 < q" for q
  proof -
    define e where "e = max (expo q) (- 1022)"
    from bucket[OF q(2)] q(1)
    have r: "q = of_int (rhe (q / ulp q)) * 2 powi (e - 52)"
      and hi: "q < 2 powi (e + 1)" by (auto simp: e_def)
    have "rhe 0 \<le> rhe q" using q(2) by (intro rhe_mono) simp
    then have n: "0 \<le> rhe q" using rhe_of_int[of 0] by simp
    show ?thesis
    proof (cases "52 \<le> e")
      case True
      then have "(2::real) powi (e - 52) = of_int (2 ^ nat (e - 52))"
        by (simp add: power_int_nonneg_exp)
      then have "q = of_int (rhe (q / ulp q) * 2 ^ nat (e - 52))" using r by simp
      then have "of_int (rhe q) = q" by (metis rhe_of_int)
      then show ?thesis using q(1) n by simp
    next
      case False
      then have "e + 1 \<le> 52" by simp
      then have "(2::real) powi (e + 1) \<le> 2 powi 52"
        by (intro power_int_increasing) simp_all
      then have "q \<le> of_int (2 ^ 52)" using hi by simp
      then have "rhe q \<le> rhe (of_int (2 ^ 52))" by (rule rhe_mono)
      then have le: "rhe q \<le> 2 ^ 52" by (simp only: rhe_of_int)
      have "rtd (of_int (rhe q) * 2 powi 0) = of_int (rhe q) * 2 powi 0"
        using le n by (intro rtd_exact_le) simp_all
      moreover have "(of_int (rhe q) :: real) \<le> of_int (2 ^ 52)" using le by (simp only: of_int_le_iff)
      ultimately show ?thesis using n by simp
    qed
  qed
  consider "0 < q" | "q = 0" | "q < 0" by linarith
  then have "rtd (of_int (rhe q)) = of_int (rhe q)
      \<and> (\<bar>q\<bar> < 2 ^ 1024 \<longrightarrow> \<bar>(of_int (rhe q) :: real)\<bar> < 2 ^ 1024)"
  proof cases
    case 1
    from pos[OF assms 1] 1 show ?thesis by simp
  next
    case 2
    then show ?thesis using rhe_of_int[of 0] by (simp add: rtd_0)
  next
    case 3
    have "rtd (- q) = - q" using assms by (simp add: rtd_minus)
    from pos[OF this] 3 show ?thesis
      by (simp add: rhe_minus rtd_minus)
  qed
  then show "rtd (of_int (rhe q)) = of_int (rhe q)"
    and "\<bar>q\<bar> < 2 ^ 1024 \<Longrightarrow> \<bar>(of_int (rhe q) :: real)\<bar> < 2 ^ 1024" by blast+
qed


lemma rhe_rtd_mono: "z \<le> z' \<Longrightarrow> rhe (rtd z) \<le> rhe (rtd z')"
  by (intro rhe_mono rtd_mono)

lemma pow2_grid:
  assumes "0 \<le> e"
  shows "rtd (2 powi e) = 2 powi e" "rhe (2 powi e) = 2 ^ nat e" "(2::real) powi e = of_int (2 ^ nat e)"
proof -
  show p: "(2::real) powi e = of_int (2 ^ nat e)" using assms by (simp add: power_int_nonneg_exp)
  have "rtd (of_int 1 * 2 powi e) = of_int 1 * 2 powi e"
    using assms by (intro rtd_exact) simp_all
  then show "rtd (2 powi e) = 2 powi e" by simp
  show "rhe (2 powi e) = 2 ^ nat e" unfolding p by (rule rhe_of_int)
qed

text \<open>
  The heart of the quantizer's stability: if \<open>k\<close> is the rounded quotient of a grid
  value \<open>x\<close> by the step, then it is also the rounded quotient of the rounded product
  \<open>k * s\<close> by the step.
\<close>

lemma stable_core_pos:
  assumes s: "rtd s = s" "0 < s" and x: "rtd x = x"
    and k: "rhe (rtd (x / s)) = k" "0 < k"
    and nr: "\<bar>q - of_int k * s\<bar> \<le> \<bar>x - of_int k * s\<bar>"
    and pw: "\<And>e. 0 \<le> e \<Longrightarrow> (of_int k :: real) = 2 powi e \<Longrightarrow> q = 2 powi e * s"
  shows "rhe (rtd (q / s)) = k"
proof -
  define t where "t = x / s"
  define p where "p = q / s"
  define e where "e = expo (of_int k)"
  have Gt: "rhe (rtd t) = k" using k(1) by (simp add: t_def)
  have kg: "rtd (of_int k) = of_int k"
    using rhe_grid(1)[OF rtd_idem[of "x / s"]] k(1) by simp
  have Gk: "rhe (rtd (of_int k)) = k" by (simp add: kg rhe_of_int)
  have k0: "(of_int k :: real) \<noteq> 0" using k(2) by simp
  from expo_bracket[OF k0] k(2)
  have kb: "2 powi e \<le> (of_int k :: real)" "(of_int k :: real) < 2 powi (e + 1)"
    by (simp_all add: e_def)
  have e0: "0 \<le> e"
  proof (rule ccontr)
    assume "\<not> 0 \<le> e"
    then have "e + 1 \<le> 0" by simp
    then have "(2::real) powi (e + 1) \<le> 2 powi 0" by (rule power_int_increasing) simp
    moreover have "(1::real) \<le> of_int k" using k(2) by simp
    ultimately show False using kb(2) by simp
  qed
  have near: "\<bar>p - of_int k\<bar> \<le> \<bar>t - of_int k\<bar>"
  proof -
    have "\<bar>q - of_int k * s\<bar> \<le> \<bar>x - of_int k * s\<bar>" by (rule nr)
    then have "\<bar>q - of_int k * s\<bar> / s \<le> \<bar>x - of_int k * s\<bar> / s"
      using s(2) by (simp add: divide_right_mono)
    moreover have "\<bar>q - of_int k * s\<bar> / s = \<bar>p - of_int k\<bar>"
    proof -
      have "\<bar>q - of_int k * s\<bar> / s = \<bar>(q - of_int k * s) / s\<bar>" using s(2) by simp
      also have "(q - of_int k * s) / s = p - of_int k" using s(2) by (simp add: p_def field_simps)
      finally show ?thesis .
    qed
    moreover have "\<bar>x - of_int k * s\<bar> / s = \<bar>t - of_int k\<bar>"
    proof -
      have "\<bar>x - of_int k * s\<bar> / s = \<bar>(x - of_int k * s) / s\<bar>" using s(2) by simp
      also have "(x - of_int k * s) / s = t - of_int k" using s(2) by (simp add: t_def field_simps)
      finally show ?thesis .
    qed
    ultimately show ?thesis by simp
  qed
  have "rhe (rtd p) = k"
  proof (cases "(of_int k :: real) = 2 powi e")
    case True
    have "q = 2 powi e * s" using e0 True by (rule pw)
    then have "p = of_int k" using s(2) True by (simp add: p_def)
    then show ?thesis using Gk by simp
  next
    case False
    define lo :: real where "lo = 2 powi e"
    define hi :: real where "hi = 2 powi (e + 1)"
    have klo: "lo < of_int k" using kb(1) False by (simp add: lo_def)
    have khi: "of_int k < hi" using kb(2) by (simp add: hi_def)
    have e1: "0 \<le> e + 1" using e0 by simp
    have glo: "rtd lo = lo" "rhe lo = 2 ^ nat e" "lo = of_int (2 ^ nat e)"
      using pow2_grid[OF e0] by (simp_all add: lo_def)
    have ghi: "rtd hi = hi" "rhe hi = 2 ^ nat (e + 1)" "hi = of_int (2 ^ nat (e + 1))"
      using pow2_grid[OF e1] by (simp_all add: hi_def)
    have ilo: "2 ^ nat e < k" using klo unfolding glo(3) by (simp only: of_int_less_iff)
    have ihi: "k < 2 ^ nat (e + 1)" using khi unfolding ghi(3) by (simp only: of_int_less_iff)
    have tlo: "lo \<le> t"
    proof (rule ccontr)
      assume "\<not> lo \<le> t"
      then have "t \<le> lo" by simp
      then have "rhe (rtd t) \<le> rhe (rtd lo)" by (rule rhe_rtd_mono)
      then show False using Gt glo(1,2) ilo by simp
    qed
    have thi: "t \<le> hi"
    proof (rule ccontr)
      assume "\<not> t \<le> hi"
      then have "hi \<le> t" by simp
      then have "rhe (rtd hi) \<le> rhe (rtd t)" by (rule rhe_rtd_mono)
      then show False using Gt ghi(1,2) ihi by simp
    qed
    have kb': "2 powi e \<le> (of_int k :: real)" "(of_int k :: real) \<le> 2 powi (e + 1)"
      using kb by simp_all
    have mlo: "lo \<le> 2 * of_int k - t"
    proof (rule ccontr)
      assume "\<not> lo \<le> 2 * of_int k - t"
      then have bt: "2 * of_int k - lo < t" by simp
      have b1: "2 powi e \<le> 2 * of_int k - lo" using klo by (simp add: lo_def)
      have b2: "2 * of_int k - lo \<le> 2 powi (e + 1)" using bt thi by (simp add: hi_def)
      have z1: "2 powi e \<le> lo" "lo \<le> 2 powi (e + 1)"
        using klo khi by (simp_all add: lo_def hi_def[symmetric])
      from rtd_mirror[OF kg e0 kb' z1 b1 b2]
      have "rtd (2 * of_int k - lo) = 2 * of_int k - lo" by (simp add: glo(1))
      then have "rhe (rtd (2 * of_int k - lo)) = 2 * k - 2 ^ nat e"
        by (simp add: rhe_mirror glo(2))
      moreover have "rhe (rtd (2 * of_int k - lo)) \<le> rhe (rtd t)"
        using bt by (intro rhe_rtd_mono) simp
      ultimately show False using Gt ilo by simp
    qed
    have mhi: "2 * of_int k - t \<le> hi"
    proof (rule ccontr)
      assume "\<not> 2 * of_int k - t \<le> hi"
      then have at: "t < 2 * of_int k - hi" by simp
      have a1: "2 powi e \<le> 2 * of_int k - hi" using at tlo by (simp add: lo_def)
      have a2: "2 * of_int k - hi \<le> 2 powi (e + 1)" using khi by (simp add: hi_def)
      have z1: "2 powi e \<le> hi" "hi \<le> 2 powi (e + 1)"
        using klo khi by (simp_all add: hi_def lo_def[symmetric])
      from rtd_mirror[OF kg e0 kb' z1 a1 a2]
      have "rtd (2 * of_int k - hi) = 2 * of_int k - hi" by (simp add: ghi(1))
      then have "rhe (rtd (2 * of_int k - hi)) = 2 * k - 2 ^ nat (e + 1)"
        by (simp add: rhe_mirror ghi(2))
      moreover have "rhe (rtd t) \<le> rhe (rtd (2 * of_int k - hi))"
        using at by (intro rhe_rtd_mono) simp
      ultimately show False using Gt ihi by simp
    qed
    have "rtd (2 * of_int k - t) = 2 * of_int k - rtd t"
      using tlo thi mlo mhi by (intro rtd_mirror[OF kg e0 kb']) (simp_all add: lo_def hi_def)
    then have Gm: "rhe (rtd (2 * of_int k - t)) = k"
      using Gt by (simp add: rhe_mirror)
    show ?thesis
    proof (cases "t \<le> of_int k")
      case True
      then have "t \<le> p" "p \<le> 2 * of_int k - t" using near by linarith+
      then have "rhe (rtd t) \<le> rhe (rtd p)" "rhe (rtd p) \<le> rhe (rtd (2 * of_int k - t))"
        by (simp_all add: rhe_rtd_mono)
      then show ?thesis using Gt Gm by simp
    next
      case F: False
      then have "2 * of_int k - t \<le> p" "p \<le> t" using near by linarith+
      then have "rhe (rtd (2 * of_int k - t)) \<le> rhe (rtd p)" "rhe (rtd p) \<le> rhe (rtd t)"
        by (simp_all add: rhe_rtd_mono)
      then show ?thesis using Gt Gm by simp
    qed
  qed
  then show ?thesis by (simp add: p_def)
qed

lemma quantize_stable_pos:
  assumes s: "rtd s = s" "0 < s" and x: "rtd x = x"
    and k: "rhe (rtd (x / s)) = k" "0 < k"
  shows "rhe (rtd (rtd (of_int k * s) / s)) = k"
proof (rule stable_core_pos[OF s x k])
  show "\<bar>rtd (of_int k * s) - of_int k * s\<bar> \<le> \<bar>x - of_int k * s\<bar>"
    using x by (rule rtd_nearest)
  show "rtd (of_int k * s) = 2 powi e * s" if "0 \<le> e" "(of_int k :: real) = 2 powi e" for e
    unfolding that(2) using s(1) that(1) by (rule rtd_scale)
qed

lemma quantize_stable:
  assumes s: "rtd s = s" "0 < s" and x: "rtd x = x"
  shows "rhe (rtd (rtd (of_int (rhe (rtd (x / s))) * s) / s)) = rhe (rtd (x / s))"
proof -
  define k where "k = rhe (rtd (x / s))"
  consider "0 < k" | "k = 0" | "k < 0" by linarith
  then have "rhe (rtd (rtd (of_int k * s) / s)) = k"
  proof cases
    case 1
    from quantize_stable_pos[OF s x _ 1] show ?thesis by (simp add: k_def)
  next
    case 2
    then show ?thesis using rhe_of_int[of 0] by (simp add: rtd_0)
  next
    case 3
    have x': "rtd (- x) = - x" using x by (simp add: rtd_minus)
    have "rhe (rtd (- x / s)) = - k" by (simp add: k_def rtd_minus rhe_minus)
    moreover have "0 < - k" using 3 by simp
    ultimately have "rhe (rtd (rtd (of_int (- k) * s) / s)) = - k"
      using quantize_stable_pos[OF s x', of "- k"] by simp
    then show ?thesis by (simp add: rtd_minus rhe_minus)
  qed
  then show ?thesis by (simp add: k_def)
qed


lemma fl_cases:
  obtains (fin) "fl x = Fin (rtd x)" "\<bar>rtd x\<bar> < 2 ^ 1024"
  | (pinf) "fl x = PInf" | (ninf) "fl x = NInf"
  by (cases "2 ^ 1024 \<le> \<bar>rtd x\<bar>"; cases "0 < x") (auto simp: fl_def Let_def)

lemma fl_Fin: "fl x = Fin r \<Longrightarrow> r = rtd x \<and> \<bar>r\<bar> < 2 ^ 1024"
  by (cases x rule: fl_cases) auto

lemma fl_grid: "fl x = Fin r \<Longrightarrow> is_binary64 r"
  using fl_Fin[of x r] by (auto simp: is_binary64_def rtd_idem)

lemma fl_binary64: "is_binary64 r \<Longrightarrow> fl r = Fin r"
  by (simp add: is_binary64_def fl_def Let_def)

lemma float_of_int_rhe:
  assumes "is_binary64 y"
  shows "float_of_int (rhe y) = Inr (Fin (of_int (rhe y)))"
proof -
  from assms have g: "rtd y = y" and b: "\<bar>y\<bar> < 2 ^ 1024" by (simp_all add: is_binary64_def)
  from rhe_grid[OF g] b have "is_binary64 (of_int (rhe y))" by (simp add: is_binary64_def)
  then show ?thesis by (simp add: float_of_int_def fl_binary64)
qed

lemma round_to_step_Fin:
  assumes "0 < s"
  shows "round_to_step (Fin x) (Fin s) =
     (case fl (x / s) of
        Fin y \<Rightarrow> Inr (fl (of_int (rhe y) * s))
      | PInf \<Rightarrow> Inl OverflowError | NInf \<Rightarrow> Inl OverflowError | NaN \<Rightarrow> Inl ValueError)"
proof (cases "fl (x / s)")
  case (Fin y)
  from float_of_int_rhe[OF fl_grid[OF Fin]] Fin assms show ?thesis
    by (simp add: round_to_step_def py_truediv_def int_mul_def)
qed (use assms in \<open>simp_all add: round_to_step_def py_truediv_def\<close>)

lemma remainder_to_grid_Fin:
  assumes "0 < s"
  shows "remainder_to_grid (Fin x) (Fin s) =
     (case fl (x / s) of
        Fin y \<Rightarrow> Inr (float_abs (float_sub (Fin x) (fl (of_int (rhe y) * s))))
      | PInf \<Rightarrow> Inl OverflowError | NInf \<Rightarrow> Inl OverflowError | NaN \<Rightarrow> Inl ValueError)"
proof (cases "fl (x / s)")
  case (Fin y)
  from float_of_int_rhe[OF fl_grid[OF Fin]] Fin assms show ?thesis
    by (simp add: remainder_to_grid_def py_truediv_def int_mul_def)
qed (use assms in \<open>simp_all add: remainder_to_grid_def py_truediv_def\<close>)

text \<open>
  What the quantizer does to a produced finite value: the quotient by the step is finite
  again and rounds to the same integer.
\<close>

lemma requantize:
  assumes x: "is_binary64 x" and s: "is_binary64 s" "0 < s"
    and y: "fl (x / s) = Fin y" and q: "fl (of_int (rhe y) * s) = Fin q"
  shows "\<exists>y'. fl (q / s) = Fin y' \<and> rhe y' = rhe y"
proof -
  from x s have gx: "rtd x = x" and gs: "rtd s = s" by (simp_all add: is_binary64_def)
  have y': "y = rtd (x / s)" "\<bar>y\<bar> < 2 ^ 1024" using fl_Fin[OF y] by blast+
  have q': "q = rtd (of_int (rhe y) * s)" using fl_Fin[OF q] by blast
  have st: "rhe (rtd (q / s)) = rhe y"
    unfolding q' y'(1) using gs s(2) gx by (rule quantize_stable)
  have gy: "rtd y = y" by (simp add: y'(1) rtd_idem)
  from rhe_grid(2)[OF gy y'(2)] have "\<bar>(of_int (rhe y) :: real)\<bar> < of_int (2 ^ 1024)" by simp
  then have "(of_int \<bar>rhe y\<bar> :: real) < of_int (2 ^ 1024)" by simp
  then have "\<bar>rhe y\<bar> < 2 ^ 1024" by (simp only: of_int_less_iff)
  then have "\<bar>rhe y\<bar> \<le> 2 ^ 1024 - 1" by simp
  then have "(of_int \<bar>rhe y\<bar> :: real) \<le> of_int (2 ^ 1024 - 1)" by (simp only: of_int_le_iff)
  then have kb: "\<bar>(of_int (rhe y) :: real)\<bar> \<le> 2 ^ 1024 - 1" by simp
  have "\<bar>of_int (rhe (rtd (q / s))) - rtd (q / s)\<bar> \<le> 1/2" by (rule rhe_err)
  then have "\<bar>rtd (q / s)\<bar> \<le> \<bar>(of_int (rhe y) :: real)\<bar> + 1/2" unfolding st by linarith
  then have "\<bar>rtd (q / s)\<bar> < 2 ^ 1024" using kb by linarith
  then have "fl (q / s) = Fin (rtd (q / s))" by (simp add: fl_def Let_def)
  with st show ?thesis by blast
qed

lemma round_to_step_idem:
  assumes v: "valid v" and s: "is_binary64 s" "0 < s"
  shows "(case round_to_step v (Fin s) of Inl e \<Rightarrow> Inl e | Inr w \<Rightarrow> round_to_step w (Fin s))
     = round_to_step v (Fin s)"
proof (cases v)
  case (Fin x)
  with v have x: "is_binary64 x" by simp
  show ?thesis
  proof (cases "fl (x / s)")
    case fy: (Fin y)
    show ?thesis
    proof (cases "fl (of_int (rhe y) * s)")
      case fq: (Fin q)
      from requantize[OF x s fy fq] obtain y' where y': "fl (q / s) = Fin y'" "rhe y' = rhe y" by blast
      show ?thesis using Fin fy fq y' s(2) by (simp add: round_to_step_Fin)
    next
      case PInf
      then show ?thesis using Fin fy s(2) by (simp add: round_to_step_Fin) (simp add: round_to_step_def)
    next
      case NInf
      then show ?thesis using Fin fy s(2) by (simp add: round_to_step_Fin) (simp add: round_to_step_def)
    next
      case NaN
      then show ?thesis using Fin fy s(2) by (simp add: round_to_step_Fin) (simp add: round_to_step_def)
    qed
  qed (use Fin s(2) in \<open>simp_all add: round_to_step_Fin\<close>)
qed (simp_all add: round_to_step_def)

lemma remainder_of_quantized:
  assumes x: "is_binary64 x" and s: "is_binary64 s" "0 < s"
    and r: "round_to_step (Fin x) (Fin s) = Inr (Fin q)"
  shows "remainder_to_grid (Fin q) (Fin s) = Inr (Fin 0)"
proof -
  from r s(2) obtain y where fy: "fl (x / s) = Fin y" and fq: "fl (of_int (rhe y) * s) = Fin q"
    by (cases "fl (x / s)") (simp_all add: round_to_step_Fin)
  from requantize[OF x s fy fq] obtain y' where y': "fl (q / s) = Fin y'" "rhe y' = rhe y" by blast
  show ?thesis using s(2) y' fq by (simp add: remainder_to_grid_Fin fl_0)
qed

subsection \<open>Single precision\<close>

text \<open>The facts about \<open>rtd\<close> hold for \<open>rtd32\<close>, with the constants of binary32.\<close>

lemma ulp32_pos: "0 < ulp32 x"
  by (simp add: ulp32_def)

lemma ulp32_minus: "ulp32 (- x) = ulp32 x"
  by (simp add: ulp32_def expo_minus)

lemma rtd32_0: "rtd32 0 = 0"
  by (simp add: rtd32_def)

lemma rtd32_minus: "rtd32 (- x) = - rtd32 x"
  by (simp add: rtd32_def ulp32_minus rhe_minus)

lemma rtd32_err_abs: "\<bar>rtd32 x - x\<bar> \<le> ulp32 x / 2"
proof (cases "x = 0")
  case True
  then show ?thesis using ulp32_pos[of 0] by (simp add: rtd32_def)
next
  case False
  have u: "0 < ulp32 x" by (rule ulp32_pos)
  have "\<bar>of_int (rhe (x / ulp32 x)) - x / ulp32 x\<bar> \<le> 1/2" by (rule rhe_err)
  then have "\<bar>of_int (rhe (x / ulp32 x)) - x / ulp32 x\<bar> * ulp32 x \<le> 1/2 * ulp32 x"
    using u by (simp add: mult_right_mono)
  moreover have "\<bar>of_int (rhe (x / ulp32 x)) - x / ulp32 x\<bar> * ulp32 x
      = \<bar>of_int (rhe (x / ulp32 x)) * ulp32 x - x\<bar>"
  proof -
    have "\<bar>of_int (rhe (x / ulp32 x)) - x / ulp32 x\<bar> * ulp32 x
        = \<bar>(of_int (rhe (x / ulp32 x)) - x / ulp32 x) * ulp32 x\<bar>"
      using u by (simp add: abs_mult)
    also have "(of_int (rhe (x / ulp32 x)) - x / ulp32 x) * ulp32 x = of_int (rhe (x / ulp32 x)) * ulp32 x - x"
      using u by (simp add: field_simps)
    finally show ?thesis .
  qed
  ultimately show ?thesis using False by (simp add: rtd32_def)
qed

lemma ulp32_normal:
  assumes "2 powi (- 126) \<le> \<bar>x\<bar>"
  shows "ulp32 x = 2 powi (expo x - 23)" "ulp32 x \<le> 2 powi (- 23) * \<bar>x\<bar>"
proof -
  have p: "0 < (2::real) powi (- 126)" by simp
  have "0 < \<bar>x\<bar>" using assms p by linarith
  then have x0: "x \<noteq> 0" by auto
  from expo_bracket[OF x0]
  have b: "2 powi (expo x) \<le> \<bar>x\<bar>" "\<bar>x\<bar> < 2 powi (expo x + 1)" by auto
  have "(2::real) powi (- 126) < 2 powi (expo x + 1)" using assms b(2) by linarith
  have e: "- 126 \<le> expo x"
  proof (rule ccontr)
    assume "\<not> - 126 \<le> expo x"
    then have "expo x + 1 \<le> - 126" by simp
    then have "(2::real) powi (expo x + 1) \<le> 2 powi (- 126)"
      by (rule power_int_increasing) simp
    with assms b(2) show False by linarith
  qed
  then show u: "ulp32 x = 2 powi (expo x - 23)" by (simp add: ulp32_def max_def)
  have "(2::real) powi (expo x - 23) = 2 powi (- 23) * 2 powi (expo x)"
    by (simp add: power_int_diff power_int_minus_divide)
  also have "\<dots> \<le> 2 powi (- 23) * \<bar>x\<bar>"
    using b(1) by (simp add: mult_left_mono)
  finally show "ulp32 x \<le> 2 powi (- 23) * \<bar>x\<bar>" using u by simp
qed

lemma rtd32_err_rel:
  assumes "2 powi (- 126) \<le> \<bar>x\<bar>"
  shows "\<bar>rtd32 x - x\<bar> \<le> 2 powi (- 24) * \<bar>x\<bar>"
proof -
  have "\<bar>rtd32 x - x\<bar> \<le> ulp32 x / 2" by (rule rtd32_err_abs)
  also have "\<dots> \<le> (2 powi (- 23) * \<bar>x\<bar>) / 2"
    using ulp32_normal(2)[OF assms] by simp
  also have "\<dots> = 2 powi (- 24) * \<bar>x\<bar>"
    by (simp add: power_int_minus_divide)
  finally show ?thesis .
qed

lemma rtd32_exact:
  assumes m: "\<bar>m\<bar> < 2 ^ 24" and j: "- 149 \<le> j"
  shows "rtd32 (of_int m * 2 powi j) = of_int m * 2 powi j"
proof (cases "m = 0")
  case True
  then show ?thesis by (simp add: rtd32_def)
next
  case False
  define x :: real where "x = of_int m * 2 powi j"
  have x0: "x \<noteq> 0" using False by (simp add: x_def)
  from expo_bracket[OF x0] have b: "2 powi (expo x) \<le> \<bar>x\<bar>" by simp
  have "\<bar>x\<bar> = of_int \<bar>m\<bar> * 2 powi j" by (simp add: x_def abs_mult)
  also have "\<dots> < of_int (2 ^ 24) * 2 powi j"
  proof (rule mult_strict_right_mono)
    show "(of_int \<bar>m\<bar> :: real) < of_int (2 ^ 24)" using m by (simp only: of_int_less_iff)
    show "0 < (2::real) powi j" by simp
  qed
  also have "\<dots> = 2 powi (24 + j)" by (simp add: power_int_add)
  finally have "(2::real) powi (expo x) < 2 powi (24 + j)" using b by linarith
  have e: "expo x < 24 + j"
  proof (rule ccontr)
    assume "\<not> expo x < 24 + j"
    then have "24 + j \<le> expo x" by simp
    then have "(2::real) powi (24 + j) \<le> 2 powi (expo x)"
      by (rule power_int_increasing) simp
    with \<open>(2::real) powi (expo x) < 2 powi (24 + j)\<close> show False by linarith
  qed
  define q where "q = max (expo x) (- 126) - 23"
  have qj: "q \<le> j" using e j by (simp add: q_def max_def)
  have u: "ulp32 x = 2 powi q" by (simp add: ulp32_def q_def)
  have "x / 2 powi q = of_int m * 2 powi (j - q)"
    by (simp add: x_def power_int_diff)
  also have "\<dots> = of_int m * 2 ^ nat (j - q)"
    using qj by (simp add: power_int_nonneg_exp)
  also have "\<dots> = of_int (m * 2 ^ nat (j - q))" by simp
  finally have "rhe (x / 2 powi q) = m * 2 ^ nat (j - q)"
    by (simp only: rhe_of_int)
  then have "rtd32 x = of_int (m * 2 ^ nat (j - q)) * 2 powi q"
    using x0 by (simp add: rtd32_def u)
  also have "\<dots> = of_int m * (2 powi (j - q) * 2 powi q)"
    using qj by (simp add: power_int_nonneg_exp)
  also have "2 powi (j - q) * 2 powi q = (2::real) powi j"
    by (simp add: power_int_diff)
  finally show ?thesis by (simp add: x_def)
qed

lemma rtd32_nonneg: "0 \<le> x \<Longrightarrow> 0 \<le> rtd32 x"
proof -
  assume x: "0 \<le> x"
  have "0 \<le> x / ulp32 x" using x ulp32_pos[of x] by simp
  then have "rhe 0 \<le> rhe (x / ulp32 x)" by (rule rhe_mono)
  then have "0 \<le> rhe (x / ulp32 x)" using rhe_of_int[of 0] by simp
  then show ?thesis using ulp32_pos[of x] by (simp add: rtd32_def)
qed

lemma rtd32_eval:
  assumes "2 powi e \<le> \<bar>x\<bar>" "\<bar>x\<bar> < 2 powi (e + 1)" "- 126 \<le> e"
  shows "rtd32 x = of_int (rhe (x / 2 powi (e - 23))) * 2 powi (e - 23)"
proof -
  have e: "expo x = e" using assms(1,2) by (rule expo_eqI)
  have p: "0 < (2::real) powi e" by simp
  have "0 < \<bar>x\<bar>" using assms(1) p by linarith
  then have "x \<noteq> 0" by auto
  then show ?thesis using assms(3) by (simp add: rtd32_def ulp32_def e max_def)
qed

lemma rtd32_exact_le:
  assumes m: "\<bar>m\<bar> \<le> 2 ^ 24" and j: "- 149 \<le> j"
  shows "rtd32 (of_int m * 2 powi j) = of_int m * 2 powi j"
proof (cases "\<bar>m\<bar> < 2 ^ 24")
  case True
  then show ?thesis using j by (rule rtd32_exact)
next
  case False
  with m have "\<bar>m\<bar> = 2 ^ 24" by simp
  then have "m = 2 ^ 24 \<or> m = - (2 ^ 24)" by linarith
  then have "(of_int m :: real) * 2 powi j = of_int 1 * 2 powi (j + 24)
      \<or> (of_int m :: real) * 2 powi j = of_int (- 1) * 2 powi (j + 24)"
    by (auto simp: power_int_add)
  moreover have "rtd32 (of_int 1 * 2 powi (j + 24)) = of_int 1 * 2 powi (j + 24)"
    using j by (intro rtd32_exact) simp_all
  moreover have "rtd32 (of_int (- 1) * 2 powi (j + 24)) = of_int (- 1) * 2 powi (j + 24)"
    using j by (intro rtd32_exact) simp_all
  ultimately show ?thesis by metis
qed

lemma bucket32:
  assumes "0 < z"
  shows "z < 2 powi (max (expo z) (- 126) + 1)"
    and "- 126 \<le> expo z \<Longrightarrow> 2 powi (max (expo z) (- 126)) \<le> z"
    and "rtd32 z = of_int (rhe (z / ulp32 z)) * ulp32 z"
    and "0 \<le> rhe (z / ulp32 z)" and "rhe (z / ulp32 z) \<le> 2 ^ 24"
    and "- 126 \<le> expo z \<Longrightarrow> 2 ^ 23 \<le> rhe (z / ulp32 z)"
    and "ulp32 z = 2 powi (max (expo z) (- 126) - 23)"
proof -
  have z0: "z \<noteq> 0" using assms by simp
  from expo_bracket[OF z0] assms
  have b: "2 powi (expo z) \<le> z" "z < 2 powi (expo z + 1)" by simp_all
  define e where "e = max (expo z) (- 126)"
  have ee: "expo z \<le> e" by (simp add: e_def)
  have "(2::real) powi (expo z + 1) \<le> 2 powi (e + 1)"
    using ee by (intro power_int_increasing) simp_all
  then show hi: "z < 2 powi (max (expo z) (- 126) + 1)" using b(2) by (simp add: e_def)
  show lo: "- 126 \<le> expo z \<Longrightarrow> 2 powi (max (expo z) (- 126)) \<le> z"
    using b(1) by (simp add: max_def)
  show "rtd32 z = of_int (rhe (z / ulp32 z)) * ulp32 z" using z0 by (simp add: rtd32_def)
  show u: "ulp32 z = 2 powi (max (expo z) (- 126) - 23)" by (simp add: ulp32_def)
  have up: "0 < ulp32 z" by (rule ulp32_pos)
  have "0 \<le> z / ulp32 z" using assms up by simp
  then have "rhe 0 \<le> rhe (z / ulp32 z)" by (rule rhe_mono)
  then show "0 \<le> rhe (z / ulp32 z)" using rhe_of_int[of 0] by simp
  have pe: "(2::real) powi (e + 1) = 2 ^ 24 * 2 powi (e - 23)"
  proof -
    have "(2::real) powi (e + 1) = 2 powi (24 + (e - 23))"
      by (rule arg_cong[where f="\<lambda>n. 2 powi n"]) simp
    also have "\<dots> = 2 powi 24 * 2 powi (e - 23)" by (rule power_int_add) simp
    finally show ?thesis by simp
  qed
  have "z / ulp32 z \<le> 2 ^ 24"
    using hi up pe by (simp add: u e_def[symmetric] field_simps)
  then have "rhe (z / ulp32 z) \<le> rhe (of_int (2 ^ 24))"
    by (intro rhe_mono) simp
  then show "rhe (z / ulp32 z) \<le> 2 ^ 24" by (simp only: rhe_of_int)
  show "2 ^ 23 \<le> rhe (z / ulp32 z)" if n: "- 126 \<le> expo z"
  proof -
    have pl: "(2::real) powi e = 2 ^ 23 * 2 powi (e - 23)"
    proof -
      have "(2::real) powi e = 2 powi (23 + (e - 23))"
        by (rule arg_cong[where f="\<lambda>n. 2 powi n"]) simp
      also have "\<dots> = 2 powi 23 * 2 powi (e - 23)" by (rule power_int_add) simp
      finally show ?thesis by simp
    qed
    have "2 ^ 23 \<le> z / ulp32 z"
      using lo[OF n] up pl by (simp add: u e_def[symmetric] field_simps)
    then have "rhe (of_int (2 ^ 23)) \<le> rhe (z / ulp32 z)"
      by (intro rhe_mono) simp
    then show ?thesis by (simp only: rhe_of_int)
  qed
qed

lemma rtd32_idem: "rtd32 (rtd32 z) = rtd32 z"
proof -
  have pos: "rtd32 (rtd32 z) = rtd32 z" if "0 < z" for z
  proof -
    from bucket32[OF that]
    have r: "rtd32 z = of_int (rhe (z / ulp32 z)) * ulp32 z"
      and n: "0 \<le> rhe (z / ulp32 z)" "rhe (z / ulp32 z) \<le> 2 ^ 24"
      and u: "ulp32 z = 2 powi (max (expo z) (- 126) - 23)" by auto
    have "rtd32 (of_int (rhe (z / ulp32 z)) * 2 powi (max (expo z) (- 126) - 23))
        = of_int (rhe (z / ulp32 z)) * 2 powi (max (expo z) (- 126) - 23)"
      using n by (intro rtd32_exact_le) simp_all
    then show ?thesis by (simp add: r u[symmetric])
  qed
  show ?thesis
  proof (cases "0 < z")
    case True
    then show ?thesis by (rule pos)
  next
    case False
    show ?thesis
    proof (cases "z = 0")
      case True
      then show ?thesis by (simp add: rtd32_0)
    next
      case F: False
      with False have "0 < - z" by simp
      from pos[OF this] show ?thesis by (simp add: rtd32_minus)
    qed
  qed
qed

lemma powi_split32: "(2::real) powi (e + 1) = 2 ^ 24 * 2 powi (e - 23)" "(2::real) powi e = 2 ^ 23 * 2 powi (e - 23)"
proof -
  have "(2::real) powi (e + 1) = 2 powi (24 + (e - 23))"
    by (rule arg_cong[where f="\<lambda>n. 2 powi n"]) simp
  also have "\<dots> = 2 powi 24 * 2 powi (e - 23)" by (rule power_int_add) simp
  finally show "(2::real) powi (e + 1) = 2 ^ 24 * 2 powi (e - 23)" by simp
  have "(2::real) powi e = 2 powi (23 + (e - 23))"
    by (rule arg_cong[where f="\<lambda>n. 2 powi n"]) simp
  also have "\<dots> = 2 powi 23 * 2 powi (e - 23)" by (rule power_int_add) simp
  finally show "(2::real) powi e = 2 ^ 23 * 2 powi (e - 23)" by simp
qed

lemma rtd32_range:
  assumes "0 < z"
  shows "rtd32 z \<le> 2 powi (max (expo z) (- 126) + 1)"
    and "- 126 \<le> expo z \<Longrightarrow> 2 powi (max (expo z) (- 126)) \<le> rtd32 z"
proof -
  define e where "e = max (expo z) (- 126)"
  from bucket32[OF assms]
  have r: "rtd32 z = of_int (rhe (z / ulp32 z)) * ulp32 z"
    and n: "rhe (z / ulp32 z) \<le> 2 ^ 24" "- 126 \<le> expo z \<Longrightarrow> 2 ^ 23 \<le> rhe (z / ulp32 z)"
    and u: "ulp32 z = 2 powi (e - 23)" by (auto simp: e_def)
  have up: "0 < ulp32 z" by (rule ulp32_pos)
  have "(of_int (rhe (z / ulp32 z)) :: real) \<le> of_int (2 ^ 24)" using n(1) by (simp only: of_int_le_iff)
  then have "of_int (rhe (z / ulp32 z)) * ulp32 z \<le> 2 ^ 24 * ulp32 z"
    using up by (intro mult_right_mono) simp_all
  then show "rtd32 z \<le> 2 powi (max (expo z) (- 126) + 1)"
    by (simp add: r u powi_split32(1) e_def[symmetric])
  show "2 powi (max (expo z) (- 126)) \<le> rtd32 z" if "- 126 \<le> expo z"
  proof -
    have "(of_int (2 ^ 23) :: real) \<le> of_int (rhe (z / ulp32 z))"
      using n(2)[OF that] by (simp only: of_int_le_iff)
    then have "2 ^ 23 * ulp32 z \<le> of_int (rhe (z / ulp32 z)) * ulp32 z"
      using up by (intro mult_right_mono) simp_all
    then show ?thesis by (simp add: r u powi_split32(2)[of e] e_def[symmetric])
  qed
qed

lemma rtd32_mono_pos:
  assumes "0 < z" "z \<le> z'"
  shows "rtd32 z \<le> rtd32 z'"
proof -
  have z': "0 < z'" using assms by simp
  define e where "e = max (expo z) (- 126)"
  define e' where "e' = max (expo z') (- 126)"
  have "expo z \<le> expo z'" using assms by (rule expo_mono)
  then have ee: "e \<le> e'" by (simp add: e_def e'_def)
  show ?thesis
  proof (cases "e = e'")
    case True
    then have u: "ulp32 z = ulp32 z'" by (simp add: ulp32_def e_def e'_def)
    have "z / ulp32 z' \<le> z' / ulp32 z'" using assms(2) ulp32_pos[of z'] by (simp add: divide_right_mono)
    then have "rhe (z / ulp32 z') \<le> rhe (z' / ulp32 z')" by (rule rhe_mono)
    then have "(of_int (rhe (z / ulp32 z')) :: real) \<le> of_int (rhe (z' / ulp32 z'))" by simp
    then have "of_int (rhe (z / ulp32 z')) * ulp32 z' \<le> of_int (rhe (z' / ulp32 z')) * ulp32 z'"
      using ulp32_pos[of z'] by (intro mult_right_mono) simp_all
    then show ?thesis using assms(1) z' by (simp add: rtd32_def u)
  next
    case False
    with ee have lt: "e + 1 \<le> e'" by simp
    then have n': "- 126 \<le> expo z'" by (auto simp: e_def e'_def max_def split: if_splits)
    have "rtd32 z \<le> 2 powi (e + 1)" using rtd32_range(1)[OF assms(1)] by (simp add: e_def)
    also have "\<dots> \<le> 2 powi e'" using lt by (intro power_int_increasing) simp_all
    also have "\<dots> \<le> rtd32 z'" using rtd32_range(2)[OF z' n'] by (simp add: e'_def)
    finally show ?thesis .
  qed
qed

lemma rtd32_mono:
  assumes "z \<le> z'"
  shows "rtd32 z \<le> rtd32 z'"
proof -
  consider "0 < z" | "z \<le> 0" "0 \<le> z'" | "z' < 0" by linarith
  then show ?thesis
  proof cases
    case 1
    then show ?thesis using assms by (rule rtd32_mono_pos)
  next
    case 2
    have "0 \<le> rtd32 (- z)" using 2(1) by (intro rtd32_nonneg) simp
    then have "rtd32 z \<le> 0" by (simp add: rtd32_minus)
    moreover have "0 \<le> rtd32 z'" using 2(2) by (rule rtd32_nonneg)
    ultimately show ?thesis by linarith
  next
    case 3
    then have "0 < - z'" "- z' \<le> - z" using assms by simp_all
    then have "rtd32 (- z') \<le> rtd32 (- z)" by (rule rtd32_mono_pos)
    then show ?thesis by (simp add: rtd32_minus)
  qed
qed

lemma grid_multiple32:
  assumes z: "0 < z" and d: "rtd32 d = d" "0 < d" "d \<le> 2 powi (max (expo z) (- 126) + 1)"
    and lo: "- 126 \<le> expo z \<longrightarrow> 2 powi (max (expo z) (- 126)) \<le> d"
  shows "\<exists>m :: int. d = of_int m * ulp32 z"
proof -
  define e where "e = max (expo z) (- 126)"
  have u: "ulp32 z = 2 powi (e - 23)" by (simp add: ulp32_def e_def)
  show ?thesis
  proof (cases "d = 2 powi (e + 1)")
    case True
    then have "d = of_int (2 ^ 24) * ulp32 z" by (simp add: u powi_split32(1))
    then show ?thesis ..
  next
    case False
    with d(3) have dl: "d < 2 powi (e + 1)" by (simp add: e_def)
    have "max (expo d) (- 126) = e"
    proof (cases "- 126 \<le> expo z")
      case True
      then have ez: "e = expo z" by (simp add: e_def)
      from lo True have "2 powi e \<le> d" by (simp add: e_def)
      then have "expo d = e" using dl d(2) by (intro expo_eqI) simp_all
      then show ?thesis using True ez by simp
    next
      case F: False
      then have ez: "e = - 126" by (simp add: e_def)
      have "expo d < e + 1"
      proof (rule ccontr)
        assume "\<not> expo d < e + 1"
        then have "e + 1 \<le> expo d" by simp
        then have "(2::real) powi (e + 1) \<le> 2 powi (expo d)"
          by (rule power_int_increasing) simp
        moreover have "2 powi (expo d) \<le> d" using expo_bracket[of d] d(2) by simp
        ultimately show False using dl by linarith
      qed
      then show ?thesis using ez by simp
    qed
    then have "ulp32 d = ulp32 z" by (simp add: ulp32_def e_def)
    moreover have "rtd32 d = of_int (rhe (d / ulp32 d)) * ulp32 d" using bucket32(3)[OF d(2)] .
    ultimately have "d = of_int (rhe (d / ulp32 z)) * ulp32 z" using d(1) by simp
    then show ?thesis ..
  qed
qed

lemma rtd32_nearest_pos:
  assumes d: "rtd32 d = d" and z: "0 < z"
  shows "\<bar>rtd32 z - z\<bar> \<le> \<bar>d - z\<bar>"
proof -
  define e where "e = max (expo z) (- 126)"
  define u where "u = ulp32 z"
  define n where "n = rhe (z / u)"
  have up: "0 < u" by (simp add: u_def ulp32_pos)
  from bucket32[OF z]
  have zhi: "z < 2 powi (e + 1)" and zlo: "- 126 \<le> expo z \<Longrightarrow> 2 powi e \<le> z"
    and r: "rtd32 z = of_int n * u" and n53: "n \<le> 2 ^ 24"
    and ue: "u = 2 powi (e - 23)"
    by (simp_all add: e_def u_def n_def)
  have err: "\<bar>rtd32 z - z\<bar> \<le> u / 2" unfolding u_def by (rule rtd32_err_abs)
  have hi: "2 powi (e + 1) = 2 ^ 24 * u" and lo: "2 powi e = 2 ^ 23 * u"
    unfolding ue by (rule powi_split32)+
  show ?thesis
  proof (cases "z \<le> d")
    case True
    show ?thesis
    proof (cases "z \<le> rtd32 z")
      case T2: True
      have "rtd32 z \<le> rtd32 d" using True by (rule rtd32_mono)
      then show ?thesis using d T2 True by simp
    next
      case False
      then have rz: "of_int n * u < z" by (simp add: r)
      have "of_int n * u + u \<le> d"
      proof (rule ccontr)
        assume "\<not> of_int n * u + u \<le> d"
        then have dlt: "d < of_int n * u + u" by simp
        have "of_int n * u < 2 ^ 24 * u" using rz zhi hi by linarith
        then have "(of_int n :: real) < of_int (2 ^ 24)" using up by simp
        then have "n < 2 ^ 24" by (simp only: of_int_less_iff)
        then have "n + 1 \<le> 2 ^ 24" by simp
        then have "(of_int (n + 1) :: real) \<le> of_int (2 ^ 24)" by (simp only: of_int_le_iff)
        then have "of_int (n + 1) * u \<le> 2 ^ 24 * u" using up by (intro mult_right_mono) simp_all
        moreover have "of_int (n + 1) * u = of_int n * u + u" by (simp add: algebra_simps)
        ultimately have "d \<le> 2 powi (e + 1)"
          using dlt unfolding hi by linarith
        then have d1: "d \<le> 2 powi (max (expo z) (- 126) + 1)" by (simp only: e_def)
        have d2: "- 126 \<le> expo z \<longrightarrow> 2 powi (max (expo z) (- 126)) \<le> d"
        proof
          assume "- 126 \<le> expo z"
          from zlo[OF this] True have "2 powi e \<le> d" by linarith
          then show "2 powi (max (expo z) (- 126)) \<le> d" by (simp only: e_def)
        qed
        have d0: "0 < d" using z True by simp
        from grid_multiple32[OF z d d0 d1 d2] obtain m :: int where m: "d = of_int m * u"
          unfolding u_def by blast
        have "of_int n * u < of_int m * u" using rz True m by simp
        then have "(of_int n :: real) < of_int m" using up by simp
        then have 1: "n < m" by (simp only: of_int_less_iff)
        have "of_int (n + 1) * u = of_int n * u + u" by (simp add: algebra_simps)
        then have "of_int m * u < of_int (n + 1) * u"
          using dlt unfolding m by linarith
        then have "(of_int m :: real) < of_int (n + 1)" using up by (simp only: mult_less_cancel_right_pos)
        then have 2: "m < n + 1" by (simp only: of_int_less_iff)
        from 1 2 show False by simp
      qed
      then show ?thesis using err rz True unfolding r by linarith
    qed
  next
    case False
    then have dz: "d < z" by simp
    show ?thesis
    proof (cases "rtd32 z \<le> z")
      case True
      have "rtd32 d \<le> rtd32 z" using dz by (intro rtd32_mono) simp
      then show ?thesis using d True dz by simp
    next
      case F2: False
      then have rz: "z < of_int n * u" by (simp add: r)
      have "d \<le> of_int n * u - u"
      proof (rule ccontr)
        assume "\<not> d \<le> of_int n * u - u"
        then have dgt: "of_int n * u - u < d" by simp
        have "0 < of_int n * u" using rz z by linarith
        then have "(0::real) < of_int n" using up by (simp add: zero_less_mult_iff)
        then have "1 \<le> n" by simp
        then have "(of_int 1 :: real) \<le> of_int n" by (simp only: of_int_le_iff)
        then have "1 * u \<le> of_int n * u" using up by (intro mult_right_mono) simp_all
        then have d0: "0 < d" using dgt by simp
        have "d \<le> 2 powi (e + 1)" using dz zhi by linarith
        then have d1: "d \<le> 2 powi (max (expo z) (- 126) + 1)" by (simp only: e_def)
        have d2: "- 126 \<le> expo z \<longrightarrow> 2 powi (max (expo z) (- 126)) \<le> d"
        proof
          assume nrm: "- 126 \<le> expo z"
          have "2 ^ 23 * u < of_int n * u" using zlo[OF nrm] rz lo by linarith
          then have "(of_int (2 ^ 23) :: real) < of_int n" using up by simp
          then have "2 ^ 23 < n" by (simp only: of_int_less_iff)
          then have "2 ^ 23 \<le> n - 1" by simp
          then have "(of_int (2 ^ 23) :: real) \<le> of_int (n - 1)" by (simp only: of_int_le_iff)
          then have "2 ^ 23 * u \<le> of_int (n - 1) * u" using up by (intro mult_right_mono) simp_all
          moreover have "of_int (n - 1) * u = of_int n * u - u" by (simp add: algebra_simps)
          ultimately have "2 powi e \<le> d"
            using dgt unfolding lo by linarith
          then show "2 powi (max (expo z) (- 126)) \<le> d" by (simp only: e_def)
        qed
        from grid_multiple32[OF z d d0 d1 d2] obtain m :: int where m: "d = of_int m * u"
          unfolding u_def by blast
        have "of_int m * u < of_int n * u" using rz dz m by simp
        then have "(of_int m :: real) < of_int n" using up by simp
        then have 1: "m < n" by (simp only: of_int_less_iff)
        have "of_int (n - 1) * u = of_int n * u - u" by (simp add: algebra_simps)
        then have "of_int (n - 1) * u < of_int m * u"
          using dgt unfolding m by linarith
        then have "(of_int (n - 1) :: real) < of_int m" using up by (simp only: mult_less_cancel_right_pos)
        then have 2: "n - 1 < m" by (simp only: of_int_less_iff)
        from 1 2 show False by simp
      qed
      then show ?thesis using err rz dz unfolding r by linarith
    qed
  qed
qed

lemma rtd32_nearest:
  assumes "rtd32 d = d"
  shows "\<bar>rtd32 z - z\<bar> \<le> \<bar>d - z\<bar>"
proof -
  consider "0 < z" | "z = 0" | "z < 0" by linarith
  then show ?thesis
  proof cases
    case 1
    with assms show ?thesis by (rule rtd32_nearest_pos)
  next
    case 2
    then show ?thesis by (simp add: rtd32_0)
  next
    case 3
    have "rtd32 (- d) = - d" using assms by (simp add: rtd32_minus)
    moreover have "0 < - z" using 3 by simp
    ultimately have "\<bar>rtd32 (- z) - (- z)\<bar> \<le> \<bar>(- d) - (- z)\<bar>" by (rule rtd32_nearest_pos)
    then show ?thesis by (simp add: rtd32_minus abs_minus_commute)
  qed
qed

lemma grid_repr32:
  assumes "rtd32 s = s"
  shows "\<exists>m j. \<bar>m\<bar> \<le> 2 ^ 24 \<and> - 149 \<le> j \<and> s = of_int m * 2 powi j"
proof -
  have pos: "\<exists>m j. \<bar>m\<bar> \<le> 2 ^ 24 \<and> - 149 \<le> j \<and> s = of_int m * 2 powi j"
    if "rtd32 s = s" "0 < s" for s
  proof -
    from bucket32[OF that(2)] that(1)
    have "s = of_int (rhe (s / ulp32 s)) * 2 powi (max (expo s) (- 126) - 23)"
      and "0 \<le> rhe (s / ulp32 s)" "rhe (s / ulp32 s) \<le> 2 ^ 24" by auto
    moreover have "- 149 \<le> max (expo s) (- 126) - 23" by simp
    ultimately show ?thesis
      by (intro exI[of _ "rhe (s / ulp32 s)"] exI[of _ "max (expo s) (- 126) - 23"]) simp
  qed
  consider "0 < s" | "s = 0" | "s < 0" by linarith
  then show ?thesis
  proof cases
    case 1
    with assms show ?thesis by (rule pos)
  next
    case 2
    then have "\<bar>0::int\<bar> \<le> 2 ^ 24 \<and> - 149 \<le> (0::int) \<and> s = of_int 0 * 2 powi 0" by simp
    then show ?thesis by blast
  next
    case 3
    have "rtd32 (- s) = - s" using assms by (simp add: rtd32_minus)
    from pos[OF this] 3 obtain m j where "\<bar>m\<bar> \<le> 2 ^ 24" "- 149 \<le> j" "- s = of_int m * 2 powi j"
      by auto
    then have "\<bar>- m\<bar> \<le> 2 ^ 24 \<and> - 149 \<le> j \<and> s = of_int (- m) * 2 powi j" by simp
    then show ?thesis by blast
  qed
qed

lemma rtd32_scale:
  assumes "rtd32 s = s" "0 \<le> e"
  shows "rtd32 (2 powi e * s) = 2 powi e * s"
proof -
  from grid_repr32[OF assms(1)] obtain m j where
    mj: "\<bar>m\<bar> \<le> 2 ^ 24" "- 149 \<le> j" "s = of_int m * 2 powi j" by blast
  have "2 powi e * s = of_int m * 2 powi (j + e)"
    by (simp add: mj(3) power_int_add)
  moreover have "rtd32 (of_int m * 2 powi (j + e)) = of_int m * 2 powi (j + e)"
    using mj(1,2) assms(2) by (intro rtd32_exact_le) simp_all
  ultimately show ?thesis by simp
qed

lemma binary32_grid64:
  assumes "rtd32 x = x"
  shows "rtd x = x"
proof -
  from grid_repr32[OF assms] obtain m j where
    mj: "\<bar>m\<bar> \<le> 2 ^ 24" "- 149 \<le> j" "x = of_int m * 2 powi j" by blast
  have "\<bar>m\<bar> \<le> 2 ^ 53" using mj(1) by simp
  moreover have "- 1074 \<le> j" using mj(2) by simp
  ultimately have "rtd (of_int m * 2 powi j) = of_int m * 2 powi j" by (rule rtd_exact_le)
  then show ?thesis by (simp add: mj(3))
qed

lemma product_exact:
  assumes s: "rtd32 s = s" and k: "\<bar>k\<bar> < 2 ^ 29"
  shows "rtd (of_int k * s) = of_int k * s"
proof -
  from grid_repr32[OF s] obtain m j where
    mj: "\<bar>m\<bar> \<le> 2 ^ 24" "- 149 \<le> j" "s = of_int m * 2 powi j" by blast
  have "\<bar>k\<bar> * \<bar>m\<bar> \<le> 2 ^ 29 * 2 ^ 24"
    using k mj(1) by (intro mult_mono) simp_all
  then have "\<bar>k * m\<bar> \<le> 2 ^ 53" by (simp add: abs_mult)
  moreover have "- 1074 \<le> j" using mj(2) by simp
  ultimately have "rtd (of_int (k * m) * 2 powi j) = of_int (k * m) * 2 powi j"
    by (rule rtd_exact_le)
  then show ?thesis by (simp add: mj(3) mult.assoc)
qed

lemma grid32_lower:
  assumes "rtd32 x = x" "0 < x"
  shows "2 powi (- 149) \<le> x"
proof -
  from bucket32[OF assms(2)] assms(1)
  have r: "x = of_int (rhe (x / ulp32 x)) * ulp32 x" and n: "0 \<le> rhe (x / ulp32 x)"
    and u: "ulp32 x = 2 powi (max (expo x) (- 126) - 23)" by auto
  have up: "0 < ulp32 x" by (rule ulp32_pos)
  have "rhe (x / ulp32 x) \<noteq> 0" using r assms(2) by auto
  with n have "1 \<le> rhe (x / ulp32 x)" by simp
  then have "(1::real) \<le> of_int (rhe (x / ulp32 x))" by simp
  then have "1 * ulp32 x \<le> of_int (rhe (x / ulp32 x)) * ulp32 x"
    using up by (intro mult_right_mono) simp_all
  then have "ulp32 x \<le> x" using r by simp
  moreover have "(2::real) powi (- 149) \<le> 2 powi (max (expo x) (- 126) - 23)"
    by (intro power_int_increasing) simp_all
  ultimately show ?thesis using u by simp
qed

lemma ulp32_lower:
  assumes "0 < a"
  shows "2 powi (- 24) * a < ulp32 a"
proof -
  have a0: "a \<noteq> 0" using assms by simp
  from expo_bracket[OF a0] assms have b: "a < 2 powi (expo a + 1)" by simp
  have "2 powi (- 24) * a < 2 powi (- 24) * 2 powi (expo a + 1)"
    using b by (intro mult_strict_left_mono) simp_all
  also have "\<dots> = 2 powi (expo a - 23)"
  proof -
    have "(2::real) powi (- 24) * 2 powi (expo a + 1) = 2 powi (- 24 + (expo a + 1))"
      by (rule power_int_add[symmetric]) simp
    also have "- 24 + (expo a + 1) = expo a - 23" by simp
    finally show ?thesis .
  qed
  also have "\<dots> \<le> 2 powi (max (expo a) (- 126) - 23)"
    by (intro power_int_increasing) simp_all
  finally show ?thesis by (simp add: ulp32_def)
qed

text \<open>Two binary32 values that differ are at least one spacing apart.\<close>

lemma grid32_sep:
  assumes a: "rtd32 a = a" and b: "rtd32 b = b" and p: "0 < a" "a < b"
  shows "ulp32 a \<le> b - a"
proof -
  define ea where "ea = max (expo a) (- 126)"
  define eb where "eb = max (expo b) (- 126)"
  define A where "A = rhe (a / ulp32 a)"
  define B where "B = rhe (b / ulp32 b)"
  have pb: "0 < b" using p by simp
  from bucket32[OF p(1)] a have ra: "a = of_int A * ulp32 a" and ua: "ulp32 a = 2 powi (ea - 23)"
    by (auto simp: A_def ea_def)
  from bucket32[OF pb] b have rb: "b = of_int B * ulp32 b" and ub: "ulp32 b = 2 powi (eb - 23)"
    by (auto simp: B_def eb_def)
  have "expo a \<le> expo b" using p by (intro expo_mono) simp_all
  then have ee: "ea \<le> eb" by (simp add: ea_def eb_def)
  have "(2::real) powi (eb - 23) = 2 powi ((eb - ea) + (ea - 23))"
    by (rule arg_cong[where f="\<lambda>n. 2 powi n"]) simp
  also have "\<dots> = 2 powi (eb - ea) * 2 powi (ea - 23)" by (rule power_int_add) simp
  also have "(2::real) powi (eb - ea) = of_int (2 ^ nat (eb - ea))"
    using ee by (simp add: power_int_nonneg_exp)
  finally have ub': "ulp32 b = of_int (2 ^ nat (eb - ea)) * ulp32 a" by (simp add: ua ub)
  define D where "D = B * 2 ^ nat (eb - ea) - A"
  have d: "b - a = of_int D * ulp32 a"
  proof -
    have "b - a = of_int B * (of_int (2 ^ nat (eb - ea)) * ulp32 a) - of_int A * ulp32 a"
      using ra rb ub' by simp
    also have "\<dots> = of_int D * ulp32 a" by (simp add: D_def algebra_simps)
    finally show ?thesis .
  qed
  have up: "0 < ulp32 a" by (rule ulp32_pos)
  have "0 < of_int D * ulp32 a" using p(2) d by simp
  then have "0 < (of_int D :: real)" using up by (simp add: zero_less_mult_iff)
  then have "1 \<le> D" by simp
  then have "(1::real) \<le> of_int D" by simp
  then have "1 * ulp32 a \<le> of_int D * ulp32 a" using up by (intro mult_right_mono) simp_all
  then show ?thesis using d by simp
qed

lemma grid32_close:
  assumes a: "rtd32 a = a" and x: "rtd32 x = x" and p: "0 < x"
    and c: "\<bar>a - x\<bar> \<le> 2 powi (- 26) * x"
  shows "a = x"
proof (rule ccontr)
  assume ne: "a \<noteq> x"
  define d :: real where "d = 2 powi (- 26)"
  have d4: "2 powi (- 24) = 4 * d" by (simp add: d_def power_int_minus_divide)
  have dp: "0 < d" "d < 1/4" by (simp_all add: d_def power_int_minus_divide)
  have c': "\<bar>a - x\<bar> \<le> d * x" using c by (simp add: d_def)
  have dx: "0 < d * x" using dp p by simp
  consider "x < a" | "a < x" using ne by linarith
  then show False
  proof cases
    case 1
    from grid32_sep[OF x a p 1] have "ulp32 x \<le> a - x" .
    moreover have "4 * d * x < ulp32 x" using ulp32_lower[OF p] by (simp only: d4)
    ultimately show False using c' 1 dx by linarith
  next
    case 2
    have lo: "x - d * x \<le> a" using c' by linarith
    have "d * x < 1/4 * x" using dp p by (intro mult_strict_right_mono) simp_all
    then have h: "3/4 * x < a" using lo by linarith
    then have pa: "0 < a" using p by linarith
    from grid32_sep[OF a x pa 2] have "ulp32 a \<le> x - a" .
    moreover have "4 * d * a < ulp32 a" using ulp32_lower[OF pa] by (simp only: d4)
    moreover have "4 * d * (3/4 * x) < 4 * d * a"
      using h dp by (intro mult_strict_left_mono) simp_all
    ultimately have "3 * (d * x) < x - a" by (simp add: algebra_simps)
    then show False using c' 2 dx by linarith
  qed
qed

lemma rtd_err_rel_mid:
  assumes "2 powi (- 150) \<le> \<bar>x\<bar>"
  shows "\<bar>rtd x - x\<bar> \<le> \<bar>x\<bar> / 9007199254740992"
proof -
  have "(2::real) powi (- 1022) \<le> 2 powi (- 150)" by (intro power_int_increasing) simp_all
  then have "2 powi (- 1022) \<le> \<bar>x\<bar>" using assms by (rule order_trans)
  then have "\<bar>rtd x - x\<bar> \<le> 2 powi (- 53) * \<bar>x\<bar>" by (rule rtd_err_rel)
  moreover have "(2::real) powi (- 53) = 1 / 9007199254740992"
    by (simp add: power_int_minus_divide)
  ultimately show ?thesis by simp
qed

text \<open>
  When the step is far below the spacing of the binary32 values around \<open>x\<close>, the
  multiple of the step nearest \<open>x\<close> rounds back to \<open>x\<close>.
\<close>

lemma stable32_large:
  assumes s: "rtd32 s = s" "0 < s" and x: "rtd32 x = x"
    and k: "rhe (rtd (x / s)) = k" "2 ^ 29 \<le> k"
  shows "rtd32 (rtd (of_int k * s)) = x"
proof -
  define t where "t = x / s"
  define y where "y = rtd t"
  define v where "v = of_int k * s"
  define q where "q = rtd v"
  define a where "a = rtd32 q"
  have ky: "rhe y = k" using k(1) by (simp add: y_def t_def)
  have t28: "268435456 < t"
  proof (rule ccontr)
    assume "\<not> 268435456 < t"
    then have "t \<le> 2 powi 28" by simp
    then have "rhe (rtd t) \<le> rhe (rtd (2 powi 28))" by (rule rhe_rtd_mono)
    also have "\<dots> = 2 ^ nat 28" using pow2_grid(1,2)[of 28] by simp
    finally have "k \<le> 2 ^ 28" using ky by (simp add: y_def)
    with k(2) show False by simp
  qed
  have xts: "x = t * s" using s(2) by (simp add: t_def)
  have xs: "268435456 * s < x"
    unfolding xts using t28 s(2) by (intro mult_strict_right_mono) simp_all
  have x0: "0 < x" using xs s(2) by linarith
  have e1: "\<bar>of_int k - y\<bar> \<le> 1/2" using rhe_err[of y] by (simp add: ky)
  define w :: real where "w = 2 powi (- 150)"
  have w1: "w \<le> 1"
  proof -
    have "(2::real) powi (- 150) \<le> 2 powi 0" by (intro power_int_increasing) simp_all
    then show ?thesis by (simp only: w_def power_int_0_right)
  qed
  have w2: "2 powi (- 149) = 2 * w"
  proof -
    have "(2::real) powi (- 149) = 2 powi (1 + (- 150))"
      by (rule arg_cong[where f="\<lambda>n. 2 powi n"]) simp
    also have "\<dots> = 2 powi 1 * 2 powi (- 150)" by (rule power_int_add) simp
    finally show ?thesis by (simp only: w_def power_int_1_right)
  qed
  have ta: "\<bar>t\<bar> = t" using t28 by simp
  have "w \<le> \<bar>t\<bar>" using w1 t28 ta by linarith
  then have "\<bar>rtd t - t\<bar> \<le> \<bar>t\<bar> / 9007199254740992"
    unfolding w_def by (rule rtd_err_rel_mid)
  then have e2: "\<bar>y - t\<bar> \<le> t / 9007199254740992"
    by (simp only: y_def ta)
  have e3: "\<bar>of_int k - t\<bar> \<le> 1/2 + t / 9007199254740992" using e1 e2 by linarith
  have "\<bar>v - x\<bar> = \<bar>(of_int k - t) * s\<bar>" by (simp add: v_def xts algebra_simps)
  also have "\<dots> = \<bar>of_int k - t\<bar> * s" using s(2) by (simp add: abs_mult)
  also have "\<dots> \<le> (1/2 + t / 9007199254740992) * s"
    using e3 s(2) by (intro mult_right_mono) simp_all
  also have "\<dots> = s / 2 + x / 9007199254740992" by (simp add: xts algebra_simps)
  finally have e4: "\<bar>v - x\<bar> \<le> s / 2 + x / 9007199254740992" .
  have e5: "\<bar>v - x\<bar> \<le> x / 536870912 + x / 9007199254740992" using e4 xs by linarith
  have vlo: "x / 2 \<le> v" and vhi: "v \<le> 2 * x" using e5 x0 by linarith+
  have "2 powi (- 149) \<le> x" using x x0 by (rule grid32_lower)
  then have xl: "2 * w \<le> x" by (simp only: w2)
  have va: "\<bar>v\<bar> = v" using vlo x0 by simp
  have "w \<le> \<bar>v\<bar>" using xl vlo va by linarith
  then have "\<bar>rtd v - v\<bar> \<le> \<bar>v\<bar> / 9007199254740992"
    unfolding w_def by (rule rtd_err_rel_mid)
  then have "\<bar>q - v\<bar> \<le> v / 9007199254740992"
    by (simp only: q_def va)
  then have e6: "\<bar>q - v\<bar> \<le> x / 4503599627370496" using vhi by linarith
  have e7: "\<bar>q - x\<bar> \<le> x / 536870912 + x / 9007199254740992 + x / 4503599627370496"
    using e5 e6 by linarith
  have "\<bar>a - q\<bar> \<le> \<bar>x - q\<bar>" unfolding a_def using x by (rule rtd32_nearest)
  then have "\<bar>a - x\<bar> \<le> x / 67108864" using e7 x0 by linarith
  then have c: "\<bar>a - x\<bar> \<le> 2 powi (- 26) * x" by (simp add: power_int_minus_divide)
  have ra: "rtd32 a = a" by (simp add: a_def rtd32_idem)
  have "a = x" using ra x x0 c by (rule grid32_close)
  then show ?thesis by (simp add: a_def q_def v_def)
qed

lemma stable32_pos:
  assumes s: "rtd32 s = s" "0 < s" and x: "rtd32 x = x"
    and k: "rhe (rtd (x / s)) = k" "0 < k"
  shows "rhe (rtd (rtd32 (rtd (of_int k * s)) / s)) = k"
proof (cases "k < 2 ^ 29")
  case True
  then have kb: "\<bar>k\<bar> < 2 ^ 29" using k(2) by simp
  have pe: "rtd (of_int k * s) = of_int k * s" using s(1) kb by (rule product_exact)
  have s64: "rtd s = s" using s(1) by (rule binary32_grid64)
  have x64: "rtd x = x" using x by (rule binary32_grid64)
  have "rhe (rtd (rtd32 (of_int k * s) / s)) = k"
  proof (rule stable_core_pos[OF s64 s(2) x64 k])
    show "\<bar>rtd32 (of_int k * s) - of_int k * s\<bar> \<le> \<bar>x - of_int k * s\<bar>"
      using x by (rule rtd32_nearest)
    show "rtd32 (of_int k * s) = 2 powi e * s" if "0 \<le> e" "(of_int k :: real) = 2 powi e" for e
      unfolding that(2) using s(1) that(1) by (rule rtd32_scale)
  qed
  then show ?thesis by (simp add: pe)
next
  case False
  then have "2 ^ 29 \<le> k" by simp
  from stable32_large[OF s x k(1) this] show ?thesis using k(1) by simp
qed

text \<open>
  The stability of the quantizer on single-precision values: if \<open>k\<close> is the rounded
  quotient of a binary32 value \<open>x\<close> by a binary32 step, then it is also the rounded quotient
  of the product \<open>k * s\<close> once that is stored in single precision.
\<close>

lemma stable32:
  assumes s: "rtd32 s = s" "0 < s" and x: "rtd32 x = x"
  shows "rhe (rtd (rtd32 (rtd (of_int (rhe (rtd (x / s))) * s)) / s)) = rhe (rtd (x / s))"
proof -
  define k where "k = rhe (rtd (x / s))"
  consider "0 < k" | "k = 0" | "k < 0" by linarith
  then have "rhe (rtd (rtd32 (rtd (of_int k * s)) / s)) = k"
  proof cases
    case 1
    from stable32_pos[OF s x _ 1] show ?thesis by (simp add: k_def)
  next
    case 2
    then show ?thesis using rhe_of_int[of 0] by (simp add: rtd_0 rtd32_0)
  next
    case 3
    have x': "rtd32 (- x) = - x" using x by (simp add: rtd32_minus)
    have "rhe (rtd (- x / s)) = - k" by (simp add: k_def rtd_minus rhe_minus)
    moreover have "0 < - k" using 3 by simp
    ultimately have "rhe (rtd (rtd32 (rtd (of_int (- k) * s)) / s)) = - k"
      using stable32_pos[OF s x', of "- k"] by simp
    then show ?thesis by (simp add: rtd_minus rtd32_minus rhe_minus)
  qed
  then show ?thesis by (simp add: k_def)
qed

lemma fl32_cases:
  obtains (fin) "fl32 x = Fin (rtd32 x)" "\<bar>rtd32 x\<bar> < 2 ^ 128"
  | (pinf) "fl32 x = PInf" | (ninf) "fl32 x = NInf"
  by (cases "2 ^ 128 \<le> \<bar>rtd32 x\<bar>"; cases "0 < x") (auto simp: fl32_def Let_def)

lemma fl32_Fin: "fl32 x = Fin r \<Longrightarrow> r = rtd32 x \<and> \<bar>r\<bar> < 2 ^ 128"
  by (cases x rule: fl32_cases) auto

lemma fl32_grid: "fl32 x = Fin r \<Longrightarrow> is_binary32 r"
  using fl32_Fin[of x r] by (auto simp: is_binary32_def rtd32_idem)

lemma fl32_binary32: "is_binary32 r \<Longrightarrow> fl32 r = Fin r"
  by (simp add: is_binary32_def fl32_def Let_def)

lemma fl32_0: "fl32 0 = Fin 0"
  by (simp add: fl32_def rtd32_0)

lemma to_single_cases:
  obtains (fin) a where "to_single v = Fin a" "is_binary32 a"
  | (inf) "to_single v = PInf" | (ninf) "to_single v = NInf" | (nan) "to_single v = NaN"
proof (cases v)
  case (Fin x)
  show ?thesis
  proof (cases x rule: fl32_cases)
    case fin
    then show ?thesis using Fin that(1) fl32_grid[of x] by simp
  next
    case pinf
    then show ?thesis using Fin that(2) by simp
  next
    case ninf
    then show ?thesis using Fin that(3) by simp
  qed
qed (use that in simp_all)

lemma to_single_idem: "to_single (to_single v) = to_single v"
  by (cases v rule: to_single_cases) (simp_all add: fl32_binary32)

lemma binary32_binary64: "is_binary32 x \<Longrightarrow> is_binary64 x"
proof -
  assume a: "is_binary32 x"
  then have g: "rtd32 x = x" and b: "\<bar>x\<bar> < 2 ^ 128" by (simp_all add: is_binary32_def)
  have "(2::real) ^ 128 < 2 ^ 1024" by simp
  with b have "\<bar>x\<bar> < 2 ^ 1024" by (rule less_trans)
  with binary32_grid64[OF g] show ?thesis by (simp add: is_binary64_def)
qed

lemma fl_finite:
  assumes "\<bar>z\<bar> \<le> 2 powi e" "e \<le> 1023" "- 1074 \<le> e"
  shows "fl z = Fin (rtd z)" "\<bar>rtd z\<bar> \<le> 2 powi e"
proof -
  have "rtd (of_int 1 * 2 powi e) = of_int 1 * 2 powi e"
    using assms(3) by (intro rtd_exact) simp_all
  then have g: "rtd (2 powi e) = 2 powi e" by simp
  have "z \<le> 2 powi e" "- (2 powi e) \<le> z" using assms(1) by (simp_all add: abs_le_iff)
  then have "rtd z \<le> rtd (2 powi e)" "rtd (- (2 powi e)) \<le> rtd z" by (simp_all add: rtd_mono)
  then show b: "\<bar>rtd z\<bar> \<le> 2 powi e" by (simp add: g rtd_minus abs_le_iff)
  have "(2::real) powi e \<le> 2 powi 1023" using assms(2) by (intro power_int_increasing) simp_all
  also have "(2::real) powi 1023 < 2 ^ 1024" by simp
  finally have "(2::real) powi e < 2 ^ 1024" .
  with b have "\<bar>rtd z\<bar> < 2 ^ 1024" by (rule le_less_trans)
  then show "fl z = Fin (rtd z)" by (simp add: fl_def Let_def)
qed

lemma quotient32:
  assumes x: "is_binary32 x" and s: "is_binary32 s" "0 < s"
  shows "\<bar>x / s\<bar> \<le> 2 powi 277"
proof -
  from x have xb: "\<bar>x\<bar> \<le> 2 powi 128" by (simp add: is_binary32_def)
  from s have "rtd32 s = s" by (simp add: is_binary32_def)
  then have sl: "2 powi (- 149) \<le> s" using s(2) by (rule grid32_lower)
  have p: "0 < (2::real) powi (- 149)" by simp
  have "\<bar>x / s\<bar> = \<bar>x\<bar> / s" using s(2) by simp
  also have "\<dots> \<le> \<bar>x\<bar> / 2 powi (- 149)" using sl p by (intro divide_left_mono) simp_all
  also have "\<dots> = \<bar>x\<bar> * 2 powi 149" by (simp add: power_int_minus_divide)
  also have "\<dots> \<le> 2 powi 128 * 2 powi 149" using xb by (intro mult_right_mono) simp_all
  also have "\<dots> = 2 powi (128 + 149)" by (rule power_int_add[symmetric]) simp
  finally show ?thesis by simp
qed


text \<open>
  The quantizer on one coordinate, for a binary32 coordinate and a binary32 step: nothing
  overflows in double precision, so \<open>_round_to_step\<close> returns the finite product
  \<open>round(x / s) * s\<close>.
\<close>

lemma round_to_step32:
  assumes x: "is_binary32 x" and s: "is_binary32 s" "0 < s"
  shows "round_to_step (Fin x) (Fin s) = Inr (Fin (rtd (of_int (rhe (rtd (x / s))) * s)))"
    and "fl (x / s) = Fin (rtd (x / s))"
    and "fl (of_int (rhe (rtd (x / s))) * s) = Fin (rtd (of_int (rhe (rtd (x / s))) * s))"
proof -
  define y where "y = rtd (x / s)"
  define k where "k = rhe y"
  have q: "\<bar>x / s\<bar> \<le> 2 powi 277" using x s by (rule quotient32)
  from fl_finite[OF q] have fy: "fl (x / s) = Fin y" and yb: "\<bar>y\<bar> \<le> 2 powi 277"
    by (simp_all add: y_def)
  have "\<bar>of_int k - y\<bar> \<le> 1/2" unfolding k_def by (rule rhe_err)
  then have "\<bar>(of_int k :: real)\<bar> \<le> 2 powi 277 + 1/2" using yb by linarith
  moreover have "(1::real) \<le> 2 powi 277"
  proof -
    have "(2::real) powi 0 \<le> 2 powi 277" by (intro power_int_increasing) simp_all
    then show ?thesis by (simp only: power_int_0_right)
  qed
  moreover have "(2::real) powi 278 = 2 * 2 powi 277"
  proof -
    have "(2::real) powi 278 = 2 powi (1 + 277)"
      by (rule arg_cong[where f="\<lambda>n. 2 powi n"]) simp
    also have "\<dots> = 2 powi 1 * 2 powi 277" by (rule power_int_add) simp
    finally show ?thesis by (simp only: power_int_1_right)
  qed
  ultimately have kb: "\<bar>(of_int k :: real)\<bar> \<le> 2 powi 278" by linarith
  from s(1) have sb: "\<bar>s\<bar> \<le> 2 powi 128" by (simp add: is_binary32_def)
  have "\<bar>of_int k * s\<bar> = \<bar>(of_int k :: real)\<bar> * \<bar>s\<bar>" by (rule abs_mult)
  also have "\<dots> \<le> 2 powi 278 * 2 powi 128" using kb sb by (intro mult_mono) simp_all
  also have "\<dots> = 2 powi (278 + 128)" by (rule power_int_add[symmetric]) simp
  finally have "\<bar>of_int k * s\<bar> \<le> 2 powi 406" by simp
  from fl_finite(1)[OF this] have fp: "fl (of_int k * s) = Fin (rtd (of_int k * s))" by simp
  show "fl (x / s) = Fin (rtd (x / s))" using fy by (simp add: y_def)
  show "fl (of_int (rhe (rtd (x / s))) * s) = Fin (rtd (of_int (rhe (rtd (x / s))) * s))"
    using fp by (simp add: k_def y_def)
  show "round_to_step (Fin x) (Fin s) = Inr (Fin (rtd (of_int (rhe (rtd (x / s))) * s)))"
    using s(2) fy fp by (simp add: round_to_step_Fin k_def y_def)
qed

text \<open>
  Quantizing the stored quantized coordinate gives the same double-precision product
  again, or the infinity that was stored.
\<close>

lemma requantize32:
  assumes x: "is_binary32 x" and s: "is_binary32 s" "0 < s"
    and r: "round_to_step (Fin x) (Fin s) = Inr p"
  shows "\<exists>w. round_to_step (to_single p) (Fin s) = Inr w \<and> to_single w = to_single p"
proof -
  define k where "k = rhe (rtd (x / s))"
  define q where "q = rtd (of_int k * s)"
  have p: "p = Fin q" using round_to_step32(1)[OF x s] r by (simp add: q_def k_def)
  from x s(1) have gx: "rtd32 x = x" and gs: "rtd32 s = s" by (simp_all add: is_binary32_def)
  consider (fin) a where "to_single p = Fin a" "is_binary32 a"
    | (inf) "to_single p = PInf" | (ninf) "to_single p = NInf" | (nan) "to_single p = NaN"
    by (rule to_single_cases)
  then show ?thesis
  proof cases
    case (fin a)
    then have a: "a = rtd32 q" using p fl32_Fin[of q a] by simp
    have "rhe (rtd (a / s)) = k"
      unfolding a q_def k_def using gs s(2) gx by (rule stable32)
    then have "round_to_step (Fin a) (Fin s) = Inr (Fin q)"
      using round_to_step32(1)[OF fin(2) s] by (simp add: q_def)
    then show ?thesis using fin(1) p by simp
  next
    case inf
    then show ?thesis by (simp add: round_to_step_def)
  next
    case ninf
    then show ?thesis by (simp add: round_to_step_def)
  next
    case nan
    then show ?thesis by (simp add: round_to_step_def)
  qed
qed

lemma quantize_vector_world32:
  assumes "is_binary32 x" "is_binary32 y" "is_binary32 z" and s: "is_binary32 s" "0 < s"
  shows "\<exists>Q. quantize_vector_world (Fin x, Fin y, Fin z) (Fin s) = Inr Q
           \<and> quantize_vector_world Q (Fin s) = Inr Q"
proof -
  obtain px where px: "round_to_step (Fin x) (Fin s) = Inr px"
    using round_to_step32(1)[OF assms(1) s] by blast
  obtain py where py: "round_to_step (Fin y) (Fin s) = Inr py"
    using round_to_step32(1)[OF assms(2) s] by blast
  obtain pz where pz: "round_to_step (Fin z) (Fin s) = Inr pz"
    using round_to_step32(1)[OF assms(3) s] by blast
  from requantize32[OF assms(1) s px] obtain wx where
    wx: "round_to_step (to_single px) (Fin s) = Inr wx" "to_single wx = to_single px" by blast
  from requantize32[OF assms(2) s py] obtain wy where
    wy: "round_to_step (to_single py) (Fin s) = Inr wy" "to_single wy = to_single py" by blast
  from requantize32[OF assms(3) s pz] obtain wz where
    wz: "round_to_step (to_single pz) (Fin s) = Inr wz" "to_single wz = to_single pz" by blast
  have 1: "quantize_vector_world (Fin x, Fin y, Fin z) (Fin s)
      = Inr (to_single px, to_single py, to_single pz)"
    by (simp add: quantize_vector_world_def Vector_def px py pz)
  have 2: "quantize_vector_world (to_single px, to_single py, to_single pz) (Fin s)
      = Inr (to_single px, to_single py, to_single pz)"
    by (simp add: quantize_vector_world_def Vector_def wx wy wz)
  from 1 2 show ?thesis by blast
qed




lemma rtd_abs_le:
  assumes "\<bar>d\<bar> \<le> e" "rtd e = e"
  shows "\<bar>rtd d\<bar> \<le> e"
proof -
  have "d \<le> e" "- e \<le> d" using assms(1) by (simp_all add: abs_le_iff)
  then have "rtd d \<le> rtd e" "rtd (- e) \<le> rtd d" by (simp_all add: rtd_mono)
  then show ?thesis by (simp add: assms(2) rtd_minus abs_le_iff)
qed




lemma is_binary32_exact:
  assumes "\<bar>m\<bar> \<le> 2 ^ 24" "- 149 \<le> j" "\<bar>(of_int m :: real) * 2 powi j\<bar> < 2 ^ 128"
  shows "is_binary32 (of_int m * 2 powi j)"
  using assms(3) rtd32_exact_le[OF assms(1,2)] by (simp add: is_binary32_def)

lemma fl32_exact:
  assumes "\<bar>m\<bar> \<le> 2 ^ 24" "- 149 \<le> j" "\<bar>(of_int m :: real) * 2 powi j\<bar> < 2 ^ 128"
  shows "fl32 (of_int m * 2 powi j) = Fin (of_int m * 2 powi j)"
  using is_binary32_exact[OF assms] by (rule fl32_binary32)

lemma is_binary32_0: "is_binary32 0"
  by (simp add: is_binary32_def rtd32_0)

lemma rhe_rtd_eqI:
  assumes "2 powi (- 150) \<le> \<bar>v\<bar>" "\<bar>v - of_int k\<bar> + \<bar>v\<bar> / 9007199254740992 < 1/2"
  shows "rhe (rtd v) = k"
proof -
  have "\<bar>rtd v - v\<bar> \<le> \<bar>v\<bar> / 9007199254740992" using assms(1) by (rule rtd_err_rel_mid)
  then have "\<bar>rtd v - of_int k\<bar> < 1/2" using assms(2) by linarith
  then show ?thesis by (rule rhe_eqI)
qed

lemma one_above_tiny: "1 \<le> \<bar>v :: real\<bar> \<Longrightarrow> 2 powi (- 150) \<le> \<bar>v\<bar>"
proof -
  assume a: "1 \<le> \<bar>v\<bar>"
  have "(2::real) powi (- 150) \<le> 2 powi 0" by (intro power_int_increasing) simp_all
  then have "(2::real) powi (- 150) \<le> 1" by (simp only: power_int_0_right)
  with a show ?thesis by linarith
qed

lemma round_to_step_0: "0 < s \<Longrightarrow> round_to_step (Fin 0) (Fin s) = Inr (Fin 0)"
  by (simp add: round_to_step_def py_truediv_def fl_0 rhe_of_int[of 0, simplified]
      int_mul_def float_of_int_def)

text \<open>
  The single-precision values nearest 1000.1 and 0.1, and what the quantizer computes
  from them.
\<close>

lemma ex32_inputs: "is_binary32 (8192819 / 8192)" "is_binary32 (13421773 / 134217728)"
  using is_binary32_exact[of 8192819 "- 13"] is_binary32_exact[of 13421773 "- 27"]
  by (simp_all add: power_int_minus_divide)

lemma ex32_round:
  "round_to_step (Fin (8192819 / 8192)) (Fin (13421773 / 134217728))
     = Inr (Fin (134231151773 / 134217728))"
proof -
  have v: "(8192819 / 8192 :: real) / (13421773 / 134217728) = 134231146496 / 13421773" by simp
  have k: "rhe (rtd (134231146496 / 13421773)) = 10001"
    by (rule rhe_rtd_eqI, rule one_above_tiny) simp_all
  have "rtd (of_int 134231151773 * 2 powi (- 27)) = of_int 134231151773 * 2 powi (- 27)"
    by (rule rtd_exact) simp_all
  then have p: "rtd (134231151773 / 134217728) = 134231151773 / 134217728"
    by (simp add: power_int_minus_divide)
  have m: "(of_int 10001 :: real) * (13421773 / 134217728) = 134231151773 / 134217728" by simp
  have "round_to_step (Fin (8192819 / 8192)) (Fin (13421773 / 134217728))
      = Inr (Fin (rtd (of_int 10001 * (13421773 / 134217728))))"
    using round_to_step32(1)[OF ex32_inputs] unfolding v k by simp
  then show ?thesis unfolding m p .
qed

lemma ex32_single: "fl32 (134231151773 / 134217728) = Fin (16385639 / 16384)"
proof -
  have b: "2 powi 9 \<le> \<bar>134231151773 / 134217728 :: real\<bar>"
    "\<bar>134231151773 / 134217728 :: real\<bar> < 2 powi (9 + 1)"
    by simp_all
  have q: "(134231151773 / 134217728 :: real) / 2 powi (9 - 23) = 134231151773 / 8192"
    by (simp add: power_int_minus_divide)
  have r: "rhe (134231151773 / 8192) = 16385639" by (rule rhe_eqI) simp
  have "rtd32 (134231151773 / 134217728) = of_int 16385639 * 2 powi (9 - 23)"
    using rtd32_eval[OF b] unfolding q r by simp
  then have "rtd32 (134231151773 / 134217728) = 16385639 / 16384"
    by (simp add: power_int_minus_divide)
  then show ?thesis by (simp add: fl32_def Let_def)
qed

lemma ex32_quantize:
  "quantize_vector_world (Fin (8192819 / 8192), Fin 0, Fin 0) (Fin (13421773 / 134217728))
     = Inr (Fin (16385639 / 16384), Fin 0, Fin 0)"
proof -
  have "(0::real) < 13421773 / 134217728" by simp
  from round_to_step_0[OF this] show ?thesis
    by (simp add: quantize_vector_world_def Vector_def ex32_round ex32_single fl32_0)
qed





text \<open>Conversion to single precision is monotone.\<close>

lemma fl32_mono:
  assumes "a \<le> b"
  shows "float_le (fl32 a) (fl32 b)"
proof -
  have m: "rtd32 a \<le> rtd32 b" using assms by (rule rtd32_mono)
  have pa: "0 < a" if "2 ^ 128 \<le> rtd32 a"
  proof (rule ccontr)
    assume "\<not> 0 < a"
    then have "0 \<le> rtd32 (- a)" by (intro rtd32_nonneg) simp
    then have "rtd32 a \<le> 0" by (simp add: rtd32_minus)
    with that show False by simp
  qed
  have nb: "\<not> 0 < b" if "rtd32 b \<le> - (2 ^ 128)"
  proof
    assume "0 < b"
    then have "0 \<le> rtd32 b" by (intro rtd32_nonneg) simp
    with that show False by simp
  qed
  have c1: "2 ^ 128 \<le> \<bar>rtd32 a\<bar> \<Longrightarrow> 0 < a \<Longrightarrow> 2 ^ 128 \<le> \<bar>rtd32 b\<bar> \<and> 0 < b"
  proof -
    assume h: "2 ^ 128 \<le> \<bar>rtd32 a\<bar>" "0 < a"
    then have "0 \<le> rtd32 a" by (intro rtd32_nonneg) simp
    then have "2 ^ 128 \<le> rtd32 a" using h(1) by simp
    then have "2 ^ 128 \<le> rtd32 b" using m by linarith
    then show ?thesis using h(2) assms by simp
  qed
  have c2: "2 ^ 128 \<le> \<bar>rtd32 b\<bar> \<Longrightarrow> \<not> 0 < b \<Longrightarrow> 2 ^ 128 \<le> \<bar>rtd32 a\<bar> \<and> \<not> 0 < a"
  proof -
    assume h: "2 ^ 128 \<le> \<bar>rtd32 b\<bar>" "\<not> 0 < b"
    then have "0 \<le> rtd32 (- b)" by (intro rtd32_nonneg) simp
    then have "rtd32 b \<le> 0" by (simp add: rtd32_minus)
    then have "rtd32 b \<le> - (2 ^ 128)" using h(1) by simp
    then have "rtd32 a \<le> - (2 ^ 128)" using m by linarith
    then show ?thesis using h(2) assms by simp
  qed
  show ?thesis
    using m c1 c2 by (auto simp: fl32_def Let_def)
qed

lemma to_single_mono: "float_le a b \<Longrightarrow> float_le (to_single a) (to_single b)"
proof (cases a; cases b)
  fix x y assume "float_le a b" "a = Fin x" "b = Fin y"
  then show ?thesis using fl32_mono[of x y] by simp
next
  fix x assume h: "float_le a b" "a = Fin x" "b = PInf"
  show ?thesis using h by (cases x rule: fl32_cases) simp_all
next
  fix y assume h: "float_le a b" "a = NInf" "b = Fin y"
  show ?thesis using h by (cases y rule: fl32_cases) simp_all
qed simp_all

text \<open>The minimum of the grid size: the binary32 value nearest \<open>1e-6\<close>, which is below it.\<close>

lemma grid_size_min_eq: "grid_size_min = Fin (8796093 / 8796093022208)"
proof -
  have b: "2 powi (- 20) \<le> \<bar>4722366482869645 / 2 ^ 72 :: real\<bar>"
    "\<bar>4722366482869645 / 2 ^ 72 :: real\<bar> < 2 powi (- 20 + 1)"
    by (simp_all add: power_int_minus_divide)
  have q: "(4722366482869645 / 2 ^ 72 :: real) / 2 powi (- 20 - 23) = 4722366482869645 / 536870912"
    by (simp add: power_int_minus_divide)
  have r: "rhe (4722366482869645 / 536870912) = 8796093" by (rule rhe_eqI) simp
  have "rtd32 (4722366482869645 / 2 ^ 72) = of_int 8796093 * 2 powi (- 20 - 23)"
    using rtd32_eval[OF b] unfolding q r by simp
  then have "rtd32 (4722366482869645 / 2 ^ 72) = 8796093 / 8796093022208"
    by (simp add: power_int_minus_divide)
  then have "fl32 (4722366482869645 / 2 ^ 72) = Fin (8796093 / 8796093022208)"
    by (simp add: fl32_def Let_def)
  then show ?thesis by (simp only: grid_size_min_def lit_1e_6_eq to_single.simps)
qed

lemma grid_size_min_below: "float_lt grid_size_min lit_1e_6"
  by (simp add: grid_size_min_eq lit_1e_6_eq)

lemma fl32_1e6: "fl32 1000000 = Fin 1000000"
  using fl32_exact[of 1000000 0] by simp

lemma fl32_max: "fl32 ((2 ^ 24 - 1) * 2 ^ 104) = Fin ((2 ^ 24 - 1) * 2 ^ 104)"
  using fl32_exact[of "2 ^ 24 - 1" 104] by simp

lemma to_single_max: "to_single float32_max = float32_max"
  unfolding float32_max_def to_single.simps by (rule fl32_max)

lemma to_single_1e6: "to_single lit_1e6 = lit_1e6"
  unfolding lit_1e6_def to_single.simps by (rule fl32_1e6)

lemma float_le_not_lt: "float_le a b \<Longrightarrow> \<not> float_lt b a"
  by (cases a; cases b) auto

lemma float_le_trans: "float_le a b \<Longrightarrow> float_le b c \<Longrightarrow> float_le a c"
  by (cases a; cases b; cases c) auto

lemma float_le_total: "float_le a a \<Longrightarrow> float_le b b \<Longrightarrow> \<not> float_lt a b \<Longrightarrow> float_le b a"
  by (cases a; cases b) auto

lemma float_le_self: "float_le a b \<Longrightarrow> float_le a a \<and> float_le b b"
  by (cases a; cases b) auto

lemma min_le_max32: "float_le grid_size_min float32_max"
  by (simp add: grid_size_min_eq float32_max_def)

lemma min_le_1e6: "float_le grid_size_min lit_1e6"
  by (simp add: grid_size_min_eq lit_1e6_def)

lemma to_single_min: "to_single grid_size_min = grid_size_min"
  by (simp add: grid_size_min_def to_single_idem)

text \<open>What the property holds after an assignment.\<close>

lemma store_lower:
  assumes "float_le lit_1e_6 h"
  shows "float_le grid_size_min (store_grid_size h)"
    and "float_le h float32_max \<Longrightarrow> store_grid_size h = to_single h"
proof -
  have v: "float_le grid_size_min (to_single h)"
    unfolding grid_size_min_def using assms by (rule to_single_mono)
  then have n: "\<not> float_lt (to_single h) grid_size_min" by (rule float_le_not_lt)
  show "float_le grid_size_min (store_grid_size h)"
    using v n min_le_max32 by (simp add: store_grid_size_def Let_def)
  show "store_grid_size h = to_single h" if "float_le h float32_max"
  proof -
    have "float_le (to_single h) (to_single float32_max)" using that by (rule to_single_mono)
    then have "float_le (to_single h) float32_max" by (simp only: to_single_max)
    then have "\<not> float_lt float32_max (to_single h)" by (rule float_le_not_lt)
    with n show ?thesis by (simp add: store_grid_size_def Let_def)
  qed
qed

lemma store_upper:
  assumes "float_le h lit_1e6"
  shows "float_le (store_grid_size h) lit_1e6"
    and "float_le grid_size_min h \<Longrightarrow> store_grid_size h = to_single h"
proof -
  have "float_le (to_single h) (to_single lit_1e6)" using assms by (rule to_single_mono)
  then have v: "float_le (to_single h) lit_1e6" by (simp only: to_single_1e6)
  have "float_le lit_1e6 float32_max" by (simp add: lit_1e6_def float32_max_def)
  with v have "float_le (to_single h) float32_max" by (rule float_le_trans)
  then have n: "\<not> float_lt float32_max (to_single h)" by (rule float_le_not_lt)
  show "float_le (store_grid_size h) lit_1e6"
    using v n min_le_1e6 by (simp add: store_grid_size_def Let_def)
  show "store_grid_size h = to_single h" if "float_le grid_size_min h"
  proof -
    have "float_le (to_single grid_size_min) (to_single h)" using that by (rule to_single_mono)
    then have "float_le grid_size_min (to_single h)" by (simp only: to_single_min)
    then have "\<not> float_lt (to_single h) grid_size_min" by (rule float_le_not_lt)
    with n show ?thesis by (simp add: store_grid_size_def Let_def)
  qed
qed

lemma step_in_range32:
  assumes "float_le grid_size_min g" "float_le g lit_1e6"
  shows "float_le (step_down g) lit_1e6" "float_le grid_size_min (step_up g)"
proof -
  from assms obtain x where g: "g = Fin x" and lo: "8796093 / 8796093022208 \<le> x"
    and hi: "x \<le> 1000000"
    by (cases g) (auto simp: grid_size_min_eq lit_1e6_def)
  have "(0::real) < 8796093 / 8796093022208" by simp
  with lo have x0: "0 < x" by linarith
  have "\<bar>x * (1/2)\<bar> \<le> 1000000" using x0 hi by simp
  moreover have "rtd 1000000 = 1000000" using rtd_exact[of 1000000 0] by simp
  ultimately have r1: "\<bar>rtd (x * (1/2))\<bar> \<le> 1000000" by (rule rtd_abs_le)
  have "(1000000::real) \<le> 2 powi 20" by simp
  with x0 hi have "\<bar>x * (1/2)\<bar> \<le> 2 powi 20" by simp
  from fl_finite(1)[OF this] have f1: "fl (x * (1/2)) = Fin (rtd (x * (1/2)))" by simp
  have "rtd (x * (1/2)) \<le> 1000000" using r1 by linarith
  then show "float_le (step_down g) lit_1e6"
    using g f1 by (simp add: step_down_def py_max_def lit_1e_6_eq lit_1e6_def)
  have "rtd (of_int 8796093 * 2 powi (- 43)) = of_int 8796093 * 2 powi (- 43)"
    by (rule rtd_exact) simp_all
  then have gm: "rtd (8796093 / 8796093022208) = 8796093 / 8796093022208"
    by (simp add: power_int_minus_divide)
  have "8796093 / 8796093022208 \<le> x * 2" using lo x0 by linarith
  then have "rtd (8796093 / 8796093022208) \<le> rtd (x * 2)" by (rule rtd_mono)
  then have r2: "8796093 / 8796093022208 \<le> rtd (x * 2)" by (simp only: gm)
  have "\<bar>x * 2\<bar> \<le> 2 powi 21" using x0 hi by simp
  from fl_finite(1)[OF this] have f2: "fl (x * 2) = Fin (rtd (x * 2))" by simp
  show "float_le grid_size_min (step_up g)"
    using g f2 r2 by (simp add: step_up_def py_min_def grid_size_min_eq lit_1e6_def)
qed

lemma store_at_min: "store_grid_size (step_down grid_size_min) = grid_size_min"
proof -
  have "\<bar>8796093 / 8796093022208 * (1/2) :: real\<bar> \<le> 2 powi 0" by simp
  from fl_finite[OF this] have f: "fl (8796093 / 8796093022208 * (1/2)) = Fin (rtd (8796093 / 8796093022208 * (1/2)))"
    and b: "\<bar>rtd (8796093 / 8796093022208 * (1/2))\<bar> \<le> 2 powi 0" by simp_all
  have "rtd (of_int 8796093 * 2 powi (- 44)) = of_int 8796093 * 2 powi (- 44)"
    by (rule rtd_exact) simp_all
  then have "rtd (8796093 / 8796093022208 * (1/2)) = 8796093 / 17592186044416"
    by (simp add: power_int_minus_divide)
  then have "float_mul grid_size_min (Fin (1/2)) = Fin (8796093 / 17592186044416)"
    using f by (simp add: grid_size_min_eq)
  then have d: "step_down grid_size_min = lit_1e_6"
    by (simp add: step_down_def py_max_def lit_1e_6_eq)
  have "float_le lit_1e_6 lit_1e_6" by (simp add: lit_1e_6_eq)
  moreover have "float_le lit_1e_6 float32_max" by (simp add: lit_1e_6_eq float32_max_def)
  ultimately have "store_grid_size lit_1e_6 = to_single lit_1e_6" by (rule store_lower(2))
  then have "store_grid_size lit_1e_6 = grid_size_min" by (simp only: grid_size_min_def)
  then show ?thesis by (simp only: d)
qed

lemma store_at_max: "store_grid_size (step_up lit_1e6) = lit_1e6"
proof -
  have "float_le lit_1e6 lit_1e6" by (simp add: lit_1e6_def)
  then have "store_grid_size lit_1e6 = to_single lit_1e6" using min_le_1e6 by (rule store_upper(2))
  then show ?thesis by (simp only: step_up_at_max to_single_1e6)
qed

lemma store_2e6: "store_grid_size (Fin 2000000) = Fin 2000000"
proof -
  have f: "fl32 2000000 = Fin 2000000" using fl32_exact[of 2000000 0] by simp
  show ?thesis
    by (simp add: store_grid_size_def Let_def f grid_size_min_eq float32_max_def)
qed

section \<open>The claims\<close>

lemma remainder_to_grid_formula:
  "0 < s \<Longrightarrow> remainder_to_grid (Fin x) (Fin s) =
     (case py_round (fl (x / s)) of
        Inl e \<Rightarrow> Inl e
      | Inr k \<Rightarrow> (case int_mul k (Fin s) of
          Inl e \<Rightarrow> Inl e
        | Inr m \<Rightarrow> Inr (float_abs (float_sub (Fin x) m))))"
  by (simp add: remainder_to_grid_def py_truediv_def)

lemma selection_points_ex_object_mode:
  "sel \<noteq> [] \<Longrightarrow> selection_points (ex_context on step ab ''OBJECT'' (Some a) sel obs) =
     map (\<lambda>i. translation (matrix_world (obs i))) sel"
  by (simp add: selection_points_def ex_context_def)

lemma ex_objects_simps:
  "translation (matrix_world (ex_objects ws i)) =
     (if i < length ws then ws ! i else (Fin 0, Fin 0, Fin 0))"
  "location (ex_objects ws i) = (if i < length ws then ws ! i else (Fin 0, Fin 0, Fin 0))"
  by (simp_all add: ex_objects_def ex_object_def)

text \<open>
  Claim C2. The claim says that the oracle returns true whenever some point of the
  selection is on the grid, whatever the order of the points. In the code
  \<open>_remainder_to_grid\<close> has no test for a non-finite coordinate (\<open>_round_to_step\<close> has
  one), and \<open>round\<close> raises on it. Two objects are selected, one at \<open>(NaN, 0, 0)\<close> and
  one at the origin, which is on the grid: its three remainders are 0 and the tolerance
  is \<open>1e-5\<close>. When the origin is examined first the oracle returns true; when the other
  object is examined first it raises ValueError.
\<close>

theorem oracle_order_dependent:
  "selection_has_any_on_grid
     (ex_context True (Fin 1) False ''OBJECT'' (Some 0) [1, 0]
        (ex_objects [(NaN, Fin 0, Fin 0), (Fin 0, Fin 0, Fin 0)])) (Fin 1)
     = Inr (True, [Debug ''OBJECT'' True (Fin 0) lit_1e_5])
   \<and> selection_has_any_on_grid
     (ex_context True (Fin 1) False ''OBJECT'' (Some 0) [0, 1]
        (ex_objects [(NaN, Fin 0, Fin 0), (Fin 0, Fin 0, Fin 0)])) (Fin 1) = Inl ValueError
   \<and> vec_remainder_to_grid (Fin 0, Fin 0, Fin 0) (Fin 1) = Inr (Fin 0, Fin 0, Fin 0)
   \<and> epsilon (Fin 1) = lit_1e_5 \<and> float_le (Fin 0) lit_1e_5"
proof -
  have r: "vec_remainder_to_grid (Fin 0, Fin 0, Fin 0) (Fin 1) = Inr (Fin 0, Fin 0, Fin 0)"
    by (simp add: origin_on_grid)
  have z: "float_le (Fin 0) lit_1e_5" by (simp add: lit_1e_5_eq)
  have 1: "selection_has_any_on_grid
     (ex_context True (Fin 1) False ''OBJECT'' (Some 0) [1, 0]
        (ex_objects [(NaN, Fin 0, Fin 0), (Fin 0, Fin 0, Fin 0)])) (Fin 1)
     = Inr (True, [Debug ''OBJECT'' True (Fin 0) lit_1e_5])"
    using z by (simp add: selection_has_any_on_grid_def ex_context_def ex_objects_simps
        r py_max_def Let_def epsilon_1)
  have n: "vec_remainder_to_grid (NaN, Fin 0, Fin 0) (Fin 1) = Inl ValueError"
    by (simp add: vec_remainder_to_grid_def remainder_to_grid_def py_truediv_def)
  have "scan_points (epsilon (Fin 1)) (Fin 1) (Fin 0) ([] @ (NaN, Fin 0, Fin 0) # [(Fin 0, Fin 0, Fin 0)])
      = Inl ValueError"
    by (rule scan_points_raises) (simp_all add: n)
  then have 2: "selection_has_any_on_grid
     (ex_context True (Fin 1) False ''OBJECT'' (Some 0) [0, 1]
        (ex_objects [(NaN, Fin 0, Fin 0), (Fin 0, Fin 0, Fin 0)])) (Fin 1) = Inl ValueError"
    by (intro oracle_raises) (simp add: selection_points_ex_object_mode ex_objects_simps)
  from 1 2 r epsilon_1 z show ?thesis by (intro conjI)
qed

text \<open>
  Claim C3. The claim says that a non-finite coordinate never makes the oracle raise and
  does not end the scan. In the code \<open>_remainder_to_grid\<close> has no test for a non-finite
  coordinate (\<open>_round_to_step\<close> has one): with two selected objects, the first at
  \<open>(NaN, 0, 0)\<close> or \<open>(inf, 0, 0)\<close> and the second at the origin, which is on the grid,
  the oracle raises ValueError or OverflowError.
\<close>

theorem oracle_raises_on_nonfinite:
  "selection_has_any_on_grid
     (ex_context True (Fin 1) False ''OBJECT'' (Some 0) [0, 1]
        (ex_objects [(NaN, Fin 0, Fin 0), (Fin 0, Fin 0, Fin 0)])) (Fin 1) = Inl ValueError
   \<and> selection_has_any_on_grid
     (ex_context True (Fin 1) False ''OBJECT'' (Some 0) [0, 1]
        (ex_objects [(PInf, Fin 0, Fin 0), (Fin 0, Fin 0, Fin 0)])) (Fin 1) = Inl OverflowError
   \<and> point_on_grid (Fin 0, Fin 0, Fin 0) (Fin 1)"
proof -
  have n: "vec_remainder_to_grid (NaN, Fin 0, Fin 0) (Fin 1) = Inl ValueError"
    by (simp add: vec_remainder_to_grid_def remainder_to_grid_def py_truediv_def)
  have i: "vec_remainder_to_grid (PInf, Fin 0, Fin 0) (Fin 1) = Inl OverflowError"
    by (simp add: vec_remainder_to_grid_def remainder_to_grid_def py_truediv_def)
  have "scan_points (epsilon (Fin 1)) (Fin 1) (Fin 0) ([] @ (NaN, Fin 0, Fin 0) # [(Fin 0, Fin 0, Fin 0)]) = Inl ValueError"
    by (rule scan_points_raises) (simp_all add: n)
  then have 1: "selection_has_any_on_grid
     (ex_context True (Fin 1) False ''OBJECT'' (Some 0) [0, 1]
        (ex_objects [(NaN, Fin 0, Fin 0), (Fin 0, Fin 0, Fin 0)])) (Fin 1) = Inl ValueError"
    by (intro oracle_raises) (simp add: selection_points_ex_object_mode ex_objects_simps)
  have "scan_points (epsilon (Fin 1)) (Fin 1) (Fin 0) ([] @ (PInf, Fin 0, Fin 0) # [(Fin 0, Fin 0, Fin 0)]) = Inl OverflowError"
    by (rule scan_points_raises) (simp_all add: i)
  then have 2: "selection_has_any_on_grid
     (ex_context True (Fin 1) False ''OBJECT'' (Some 0) [0, 1]
        (ex_objects [(PInf, Fin 0, Fin 0), (Fin 0, Fin 0, Fin 0)])) (Fin 1) = Inl OverflowError"
    by (intro oracle_raises) (simp add: selection_points_ex_object_mode ex_objects_simps)
  show ?thesis using 1 2 by (simp add: origin_on_grid)
qed


text \<open>
  Claim C5, as stated, fails in object mode: with no selected object the oracle examines
  the active object instead (\<open>context.selected_objects or [obj]\<close>), and returns true
  when its origin is on the grid.
\<close>

theorem empty_selection_counterexample:
  "selected_objects (ex_context True (Fin 1) False ''OBJECT'' (Some 0) [] (ex_objects [])) = []
   \<and> selection_has_any_on_grid
       (ex_context True (Fin 1) False ''OBJECT'' (Some 0) [] (ex_objects [])) (Fin 1)
     = Inr (True, [Debug ''OBJECT'' True (Fin 0) (epsilon (Fin 1))])"
  using epsilon_nonneg[of "Fin 1"]
  by (simp add: selection_has_any_on_grid_def ex_context_def ex_objects_simps
      origin_on_grid(1) py_max_def Let_def)

text \<open>
  Claim C5, amended. Whatever the step: without an active object the oracle returns
  false (and logs nothing); in mesh edit mode with no selected vertex it returns false
  and the maximal remainder it logs is 0; in object mode with no selected object it
  examines the active object, as if that object alone were selected.
\<close>

theorem oracle_nothing_to_examine:
  "(active_object ctx = None \<longrightarrow> selection_has_any_on_grid ctx step = Inr (False, []))
   \<and> (active_object ctx = Some a \<and> mode ctx = ''EDIT_MESH'' \<and>
      obj_type (objects ctx a) = ''MESH'' \<and>
      filter select (meshes ctx (data (objects ctx a))) = [] \<longrightarrow>
      selection_has_any_on_grid ctx step =
        Inr (False, [Debug ''EDIT_MESH'' False (Fin 0) (epsilon step)]))
   \<and> (active_object ctx = Some a \<and> mode ctx = ''OBJECT'' \<and> selected_objects ctx = [] \<longrightarrow>
      selection_has_any_on_grid ctx step =
        selection_has_any_on_grid (ctx\<lparr>selected_objects := [a]\<rparr>) step)"
  by (simp add: selection_has_any_on_grid_def loop_verts_scan Let_def)

text \<open>
  The three cases: no active object; an edit mesh whose only vertex is not selected; an
  active object and no selected object.
\<close>

theorem oracle_nothing_to_examine_witness:
  "active_object (ex_context True (Fin 1) False ''OBJECT'' None [] (ex_objects [])) = None
   \<and> selection_has_any_on_grid
        (ex_context True (Fin 1) False ''OBJECT'' None [] (ex_objects [])) (Fin 1) = Inr (False, [])
   \<and> filter select (meshes (ex_mesh_context (Fin 1) [\<lparr>select = False, co = (Fin (1/2), Fin 0, Fin 0)\<rparr>])
        (data (objects (ex_mesh_context (Fin 1) [\<lparr>select = False, co = (Fin (1/2), Fin 0, Fin 0)\<rparr>]) 0))) = []
   \<and> selection_has_any_on_grid
        (ex_mesh_context (Fin 1) [\<lparr>select = False, co = (Fin (1/2), Fin 0, Fin 0)\<rparr>]) (Fin 1)
      = Inr (False, [Debug ''EDIT_MESH'' False (Fin 0) (epsilon (Fin 1))])
   \<and> selection_has_any_on_grid
        (ex_context True (Fin 1) False ''OBJECT'' (Some 0) [] (ex_objects [])) (Fin 1)
      = selection_has_any_on_grid
        ((ex_context True (Fin 1) False ''OBJECT'' (Some 0) [] (ex_objects []))\<lparr>selected_objects := [0]\<rparr>) (Fin 1)"
proof -
  let ?c1 = "ex_context True (Fin 1) False ''OBJECT'' None [] (ex_objects [])"
  let ?c2 = "ex_mesh_context (Fin 1) [\<lparr>select = False, co = (Fin (1/2), Fin 0, Fin 0)\<rparr>]"
  let ?c3 = "ex_context True (Fin 1) False ''OBJECT'' (Some 0) [] (ex_objects [])"
  have h1: "active_object ?c1 = None" by (simp add: ex_context_def)
  have h2: "active_object ?c2 = Some 0 \<and> mode ?c2 = ''EDIT_MESH'' \<and>
      obj_type (objects ?c2 0) = ''MESH'' \<and> filter select (meshes ?c2 (data (objects ?c2 0))) = []"
    by (simp add: ex_mesh_context_def ex_context_def ex_objects_def ex_object_def)
  have h3: "active_object ?c3 = Some 0 \<and> mode ?c3 = ''OBJECT'' \<and> selected_objects ?c3 = []"
    by (simp add: ex_context_def)
  from oracle_nothing_to_examine[of ?c1 "Fin 1" 0] h1
  have 1: "selection_has_any_on_grid ?c1 (Fin 1) = Inr (False, [])" by blast
  from oracle_nothing_to_examine[of ?c2 "Fin 1" 0] h2
  have 2: "selection_has_any_on_grid ?c2 (Fin 1) = Inr (False, [Debug ''EDIT_MESH'' False (Fin 0) (epsilon (Fin 1))])"
    by blast
  from oracle_nothing_to_examine[of ?c3 "Fin 1" 0] h3
  have 3: "selection_has_any_on_grid ?c3 (Fin 1) =
     selection_has_any_on_grid (?c3\<lparr>selected_objects := [0]\<rparr>) (Fin 1)" by blast
  from h1 h2 1 2 3 show ?thesis by blast
qed

text \<open>
  Claim C1, as stated, fails for rotate (and scale): the oracle is not run and the flag is
  left as it was. Here snapping is enabled, the flag is off and the one selected object
  is off the grid; after the rotate gesture the flag is still off.
\<close>

theorem rotate_keeps_flag_counterexample:
  "selection_has_any_on_grid
      (ex_context True (Fin 1) False ''OBJECT'' (Some 0) [0] (ex_objects [(Fin (1/2), Fin 0, Fin 0)]))
      (Fin 1)
     = Inr (False, [Debug ''OBJECT'' False (Fin (1/2)) (epsilon (Fin 1))])
   \<and> absolute_flag (fst (HG_OT_rotate_invoke
      (ex_context True (Fin 1) False ''OBJECT'' (Some 0) [0] (ex_objects [(Fin (1/2), Fin 0, Fin 0)]))))
     = Some False
   \<and> snd (HG_OT_rotate_invoke
      (ex_context True (Fin 1) False ''OBJECT'' (Some 0) [0] (ex_objects [(Fin (1/2), Fin 0, Fin 0)])))
     = Inr (OpCall Rotate ''INVOKE_DEFAULT'' (Some snap_kw))"
proof -
  let ?c = "ex_context True (Fin 1) False ''OBJECT'' (Some 0) [0] (ex_objects [(Fin (1/2), Fin 0, Fin 0)])"
  have 1: "selection_has_any_on_grid ?c (Fin 1)
     = Inr (False, [Debug ''OBJECT'' False (Fin (1/2)) (epsilon (Fin 1))])"
    using half_off_grid(2)
    by (simp add: selection_has_any_on_grid_def ex_context_def ex_objects_simps
        half_off_grid(1) py_max_def Let_def)
  have 2: "absolute_flag (fst (HG_OT_rotate_invoke ?c)) = Some False"
    by (simp add: HG_OT_rotate_invoke_def invoke_rotate_def ex_context_def apply_tool_snap_def
        sync_viewport_grid_def absolute_flag_def)
  have 3: "snd (HG_OT_rotate_invoke ?c) = Inr (OpCall Rotate ''INVOKE_DEFAULT'' (Some snap_kw))"
    by (simp add: HG_OT_rotate_invoke_def invoke_rotate_def ex_context_def apply_tool_snap_def
        sync_viewport_grid_def)
  from 1 2 3 show ?thesis by (intro conjI)
qed

text \<open>
  Claim C1, amended. For the move gesture with snapping enabled and tool settings that
  have the absolute-grid flag, whenever the oracle returns, the flag is set at gesture
  start from the oracle's result on the current selection, whatever it was before: off
  (relative) when a point is on the grid, on (absolute) otherwise. The rotate and scale
  gestures do not run the oracle and leave the flag as it was.
\<close>

theorem move_sets_absolute_flag:
  "(scene ctx = Some sc \<and> enabled (hg sc) \<and> absolute_flag ctx = Some old \<and>
    selection_has_any_on_grid ctx (grid_size (hg sc)) = Inr (on_grid, logged) \<longrightarrow>
      absolute_flag (fst (HG_OT_move_invoke ctx)) = Some (\<not> on_grid) \<and>
      snd (HG_OT_move_invoke ctx) = Inr (OpCall Translate ''INVOKE_DEFAULT'' (Some snap_kw)))
   \<and> absolute_flag (fst (HG_OT_rotate_invoke ctx)) = absolute_flag ctx
   \<and> absolute_flag (fst (HG_OT_scale_invoke ctx)) = absolute_flag ctx"
proof (intro conjI impI)
  assume a: "scene ctx = Some sc \<and> enabled (hg sc) \<and> absolute_flag ctx = Some old \<and>
    selection_has_any_on_grid ctx (grid_size (hg sc)) = Inr (on_grid, logged)"
  from apply_tool_snap_result[of ctx sc "grid_size (hg sc)"] a
  obtain ctx' sc' where c: "apply_tool_snap ctx = Inr ctx'" "absolute_flag ctx' = Some old"
    "scene ctx' = Some sc'" "hg sc' = hg sc"
    "selection_has_any_on_grid ctx' (grid_size (hg sc)) = Inr (on_grid, logged)"
    by auto
  have m: "HG_OT_move_invoke ctx = (set_absolute_snap ctx' (\<not> on_grid),
      Inr (OpCall Translate ''INVOKE_DEFAULT'' (Some snap_kw)))"
    using a c by (simp add: HG_OT_move_invoke_def invoke_translate_def)
  show "absolute_flag (fst (HG_OT_move_invoke ctx)) = Some (\<not> on_grid)"
    using m set_absolute_snap_flag[OF c(2)] by simp
  show "snd (HG_OT_move_invoke ctx) = Inr (OpCall Translate ''INVOKE_DEFAULT'' (Some snap_kw))"
    using m by simp
next
  show "absolute_flag (fst (HG_OT_rotate_invoke ctx)) = absolute_flag ctx"
  proof (cases "scene ctx")
    case None
    then show ?thesis by (simp add: HG_OT_rotate_invoke_def)
  next
    case (Some sc)
    from apply_tool_snap_result[OF Some, of "Fin 0"] show ?thesis
      using Some by (auto simp: HG_OT_rotate_invoke_def invoke_rotate_def)
  qed
next
  show "absolute_flag (fst (HG_OT_scale_invoke ctx)) = absolute_flag ctx"
  proof (cases "scene ctx")
    case None
    then show ?thesis by (simp add: HG_OT_scale_invoke_def)
  next
    case (Some sc)
    from apply_tool_snap_result[OF Some, of "Fin 0"] show ?thesis
      using Some by (auto simp: HG_OT_scale_invoke_def invoke_scale_def)
  qed
qed

text \<open>
  A move with snapping enabled, the flag on and the selected object at the origin: the
  oracle reports a point on the grid and the flag is turned off.
\<close>

theorem move_sets_absolute_flag_witness:
  "scene (ex_context True (Fin 1) True ''OBJECT'' (Some 0) [0] (ex_objects [(Fin 0, Fin 0, Fin 0)]))
     = Some \<lparr>hg = \<lparr>enabled = True, grid_size = Fin 1, override_hotkeys = True\<rparr>,
             scene_tool_settings =
               Some \<lparr>use_snap = False, snap_elements = {}, snap_angle = None,
                     use_snap_grid_absolute = Some True\<rparr>\<rparr>
   \<and> absolute_flag (ex_context True (Fin 1) True ''OBJECT'' (Some 0) [0] (ex_objects [(Fin 0, Fin 0, Fin 0)]))
     = Some True
   \<and> selection_has_any_on_grid
       (ex_context True (Fin 1) True ''OBJECT'' (Some 0) [0] (ex_objects [(Fin 0, Fin 0, Fin 0)])) (Fin 1)
     = Inr (True, [Debug ''OBJECT'' True (Fin 0) (epsilon (Fin 1))])
   \<and> absolute_flag (fst (HG_OT_move_invoke
       (ex_context True (Fin 1) True ''OBJECT'' (Some 0) [0] (ex_objects [(Fin 0, Fin 0, Fin 0)]))))
     = Some False"
proof -
  let ?c = "ex_context True (Fin 1) True ''OBJECT'' (Some 0) [0] (ex_objects [(Fin 0, Fin 0, Fin 0)])"
  let ?sc = "\<lparr>hg = \<lparr>enabled = True, grid_size = Fin 1, override_hotkeys = True\<rparr>,
             scene_tool_settings =
               Some \<lparr>use_snap = False, snap_elements = {}, snap_angle = None,
                     use_snap_grid_absolute = Some True\<rparr>\<rparr>"
  have 1: "scene ?c = Some ?sc" by (simp add: ex_context_def)
  have 2: "absolute_flag ?c = Some True" by (simp add: ex_context_def absolute_flag_def)
  have 3: "selection_has_any_on_grid ?c (Fin 1)
     = Inr (True, [Debug ''OBJECT'' True (Fin 0) (epsilon (Fin 1))])"
    using epsilon_nonneg[of "Fin 1"]
    by (simp add: selection_has_any_on_grid_def ex_context_def ex_objects_simps
        origin_on_grid(1) py_max_def Let_def)
  from move_sets_absolute_flag[of ?c ?sc True True "[Debug ''OBJECT'' True (Fin 0) (epsilon (Fin 1))]"]
    1 2 3
  have "absolute_flag (fst (HG_OT_move_invoke ?c)) = Some False" by simp
  with 1 2 3 show ?thesis by (intro conjI)
qed


text \<open>
  Claim C9, as stated, fails: there is no test for a missing selection in the gesture
  operators. With snapping enabled and no active object the move gesture configures the
  snap settings, turns the absolute flag on and invokes the translate operator with the
  snap arguments.
\<close>

theorem no_selection_counterexample:
  "active_object (ex_context True (Fin 1) False ''OBJECT'' None [] (ex_objects [])) = None
   \<and> snd (HG_OT_move_invoke (ex_context True (Fin 1) False ''OBJECT'' None [] (ex_objects [])))
      = Inr (OpCall Translate ''INVOKE_DEFAULT'' (Some snap_kw))
   \<and> scene (fst (HG_OT_move_invoke (ex_context True (Fin 1) False ''OBJECT'' None [] (ex_objects []))))
      = Some \<lparr>hg = \<lparr>enabled = True, grid_size = Fin 1, override_hotkeys = True\<rparr>,
              scene_tool_settings =
                Some \<lparr>use_snap = True, snap_elements = {''INCREMENT''}, snap_angle = None,
                      use_snap_grid_absolute = Some True\<rparr>\<rparr>"
  by (simp add: HG_OT_move_invoke_def invoke_translate_def ex_context_def apply_tool_snap_def
      sync_viewport_grid_def selection_has_any_on_grid_def set_absolute_snap_def)

text \<open>
  Claim C9, amended. The gesture operators delegate a plain transform invocation, with
  no argument and with the context untouched, when grid snapping is disabled (not when
  the selection is missing). With snapping enabled and no active object no error is
  raised: the oracle yields false, so the move gesture turns the absolute flag on (when
  the tool settings have it), and each gesture invokes its transform with the snap
  arguments.
\<close>

theorem gesture_without_snapping_or_selection:
  "(scene ctx = Some sc \<and> \<not> enabled (hg sc) \<longrightarrow>
      HG_OT_move_invoke ctx = (ctx, Inr (OpCall Translate ''INVOKE_DEFAULT'' None)) \<and>
      HG_OT_rotate_invoke ctx = (ctx, Inr (OpCall Rotate ''INVOKE_DEFAULT'' None)) \<and>
      HG_OT_scale_invoke ctx = (ctx, Inr (OpCall Resize ''INVOKE_DEFAULT'' None)))
   \<and> (scene ctx = Some sc \<and> enabled (hg sc) \<and> active_object ctx = None \<longrightarrow>
      snd (HG_OT_move_invoke ctx) = Inr (OpCall Translate ''INVOKE_DEFAULT'' (Some snap_kw)) \<and>
      snd (HG_OT_rotate_invoke ctx) = Inr (OpCall Rotate ''INVOKE_DEFAULT'' (Some snap_kw)) \<and>
      snd (HG_OT_scale_invoke ctx) = Inr (OpCall Resize ''INVOKE_DEFAULT'' (Some snap_kw)) \<and>
      (absolute_flag ctx \<noteq> None \<longrightarrow> absolute_flag (fst (HG_OT_move_invoke ctx)) = Some True))"
proof (intro conjI impI)
  assume "scene ctx = Some sc \<and> \<not> enabled (hg sc)"
  then show "HG_OT_move_invoke ctx = (ctx, Inr (OpCall Translate ''INVOKE_DEFAULT'' None))"
    "HG_OT_rotate_invoke ctx = (ctx, Inr (OpCall Rotate ''INVOKE_DEFAULT'' None))"
    "HG_OT_scale_invoke ctx = (ctx, Inr (OpCall Resize ''INVOKE_DEFAULT'' None))"
    by (simp_all add: HG_OT_move_invoke_def HG_OT_rotate_invoke_def HG_OT_scale_invoke_def)
next
  assume a: "scene ctx = Some sc \<and> enabled (hg sc) \<and> active_object ctx = None"
  have o: "selection_has_any_on_grid ctx (grid_size (hg sc)) = Inr (False, [])"
    using a by (simp add: selection_has_any_on_grid_def)
  from apply_tool_snap_result[of ctx sc "grid_size (hg sc)"] a o
  obtain ctx' sc' where c: "apply_tool_snap ctx = Inr ctx'" "absolute_flag ctx' = absolute_flag ctx"
    "scene ctx' = Some sc'" "hg sc' = hg sc"
    "selection_has_any_on_grid ctx' (grid_size (hg sc)) = Inr (False, [])"
    by auto
  have m: "HG_OT_move_invoke ctx = (set_absolute_snap ctx' True,
      Inr (OpCall Translate ''INVOKE_DEFAULT'' (Some snap_kw)))"
    using a c by (simp add: HG_OT_move_invoke_def invoke_translate_def)
  show "snd (HG_OT_move_invoke ctx) = Inr (OpCall Translate ''INVOKE_DEFAULT'' (Some snap_kw))"
    using m by simp
  show "snd (HG_OT_rotate_invoke ctx) = Inr (OpCall Rotate ''INVOKE_DEFAULT'' (Some snap_kw))"
    using a c by (simp add: HG_OT_rotate_invoke_def invoke_rotate_def)
  show "snd (HG_OT_scale_invoke ctx) = Inr (OpCall Resize ''INVOKE_DEFAULT'' (Some snap_kw))"
    using a c by (simp add: HG_OT_scale_invoke_def invoke_scale_def)
  assume "absolute_flag ctx \<noteq> None"
  then obtain old where "absolute_flag ctx' = Some old" using c(2) by auto
  from set_absolute_snap_flag[OF this, of True]
  show "absolute_flag (fst (HG_OT_move_invoke ctx)) = Some True" using m by simp
qed

text \<open>
  Two contexts without an active object: with snapping disabled the move gesture is the
  plain translate; with snapping enabled it is the snapped translate, with the flag on.
\<close>

theorem gesture_without_snapping_or_selection_witness:
  "scene (ex_context False (Fin 1) False ''OBJECT'' None [] (ex_objects []))
     = Some \<lparr>hg = \<lparr>enabled = False, grid_size = Fin 1, override_hotkeys = True\<rparr>,
             scene_tool_settings =
               Some \<lparr>use_snap = False, snap_elements = {}, snap_angle = None,
                     use_snap_grid_absolute = Some False\<rparr>\<rparr>
   \<and> HG_OT_move_invoke (ex_context False (Fin 1) False ''OBJECT'' None [] (ex_objects []))
     = (ex_context False (Fin 1) False ''OBJECT'' None [] (ex_objects []),
        Inr (OpCall Translate ''INVOKE_DEFAULT'' None))
   \<and> scene (ex_context True (Fin 1) False ''OBJECT'' None [] (ex_objects []))
     = Some \<lparr>hg = \<lparr>enabled = True, grid_size = Fin 1, override_hotkeys = True\<rparr>,
             scene_tool_settings =
               Some \<lparr>use_snap = False, snap_elements = {}, snap_angle = None,
                     use_snap_grid_absolute = Some False\<rparr>\<rparr>
   \<and> active_object (ex_context True (Fin 1) False ''OBJECT'' None [] (ex_objects [])) = None
   \<and> absolute_flag (ex_context True (Fin 1) False ''OBJECT'' None [] (ex_objects [])) = Some False
   \<and> snd (HG_OT_move_invoke (ex_context True (Fin 1) False ''OBJECT'' None [] (ex_objects [])))
     = Inr (OpCall Translate ''INVOKE_DEFAULT'' (Some snap_kw))
   \<and> absolute_flag (fst (HG_OT_move_invoke
        (ex_context True (Fin 1) False ''OBJECT'' None [] (ex_objects [])))) = Some True"
proof -
  let ?c0 = "ex_context False (Fin 1) False ''OBJECT'' None [] (ex_objects [])"
  let ?c1 = "ex_context True (Fin 1) False ''OBJECT'' None [] (ex_objects [])"
  let ?s0 = "\<lparr>hg = \<lparr>enabled = False, grid_size = Fin 1, override_hotkeys = True\<rparr>,
             scene_tool_settings =
               Some \<lparr>use_snap = False, snap_elements = {}, snap_angle = None,
                     use_snap_grid_absolute = Some False\<rparr>\<rparr>"
  let ?s1 = "\<lparr>hg = \<lparr>enabled = True, grid_size = Fin 1, override_hotkeys = True\<rparr>,
             scene_tool_settings =
               Some \<lparr>use_snap = False, snap_elements = {}, snap_angle = None,
                     use_snap_grid_absolute = Some False\<rparr>\<rparr>"
  have h0: "scene ?c0 = Some ?s0" by (simp add: ex_context_def)
  have h1: "scene ?c1 = Some ?s1" "active_object ?c1 = None" "absolute_flag ?c1 = Some False"
    by (simp_all add: ex_context_def absolute_flag_def)
  from gesture_without_snapping_or_selection[of ?c0 ?s0] h0
  have r0: "HG_OT_move_invoke ?c0 = (?c0, Inr (OpCall Translate ''INVOKE_DEFAULT'' None))" by simp
  from gesture_without_snapping_or_selection[of ?c1 ?s1] h1
  have r1: "snd (HG_OT_move_invoke ?c1) = Inr (OpCall Translate ''INVOKE_DEFAULT'' (Some snap_kw))"
    "absolute_flag (fst (HG_OT_move_invoke ?c1)) = Some True" by simp_all
  from h0 h1 r0 r1 show ?thesis by (intro conjI)
qed

text \<open>
  Claim C10. Whatever the outcome of the quantize operator (finished, cancelled or an
  exception): only the stores of objects and meshes can change; an object that is not
  selected is unchanged, and of any object only the location can change; every mesh
  keeps its vertices in number and order, a vertex that is not selected is unchanged,
  and of any vertex only the coordinates can change; in object mode no mesh changes, and
  otherwise no object changes and only the mesh of the active object can. Without an
  active object, or in a mode that is neither object mode nor mesh edit mode, the
  operator returns cancelled and the context is unchanged.
\<close>

theorem quantize_frame:
  "(\<forall>i. i \<notin> set (selected_objects ctx) \<longrightarrow>
        objects (fst (HG_OT_quantize_to_grid_execute ctx)) i = objects ctx i)
   \<and> (\<forall>i. \<exists>l. objects (fst (HG_OT_quantize_to_grid_execute ctx)) i
        = (objects ctx i)\<lparr>location := l\<rparr>)
   \<and> (\<forall>m. length (meshes (fst (HG_OT_quantize_to_grid_execute ctx)) m) = length (meshes ctx m) \<and>
        (\<forall>j < length (meshes ctx m).
           (\<not> select (meshes ctx m ! j) \<longrightarrow>
              meshes (fst (HG_OT_quantize_to_grid_execute ctx)) m ! j = meshes ctx m ! j) \<and>
           (\<exists>c. meshes (fst (HG_OT_quantize_to_grid_execute ctx)) m ! j
              = (meshes ctx m ! j)\<lparr>co := c\<rparr>)))
   \<and> fst (HG_OT_quantize_to_grid_execute ctx)
       = ctx\<lparr>objects := objects (fst (HG_OT_quantize_to_grid_execute ctx)),
             meshes := meshes (fst (HG_OT_quantize_to_grid_execute ctx))\<rparr>
   \<and> (mode ctx = ''OBJECT'' \<longrightarrow> meshes (fst (HG_OT_quantize_to_grid_execute ctx)) = meshes ctx)
   \<and> (mode ctx \<noteq> ''OBJECT'' \<longrightarrow>
        objects (fst (HG_OT_quantize_to_grid_execute ctx)) = objects ctx \<and>
        (\<forall>a m. active_object ctx = Some a \<and> m \<noteq> data (objects ctx a) \<longrightarrow>
           meshes (fst (HG_OT_quantize_to_grid_execute ctx)) m = meshes ctx m))
   \<and> (scene ctx \<noteq> None \<and>
       (active_object ctx = None \<or> (mode ctx \<noteq> ''OBJECT'' \<and> mode ctx \<noteq> ''EDIT_MESH'')) \<longrightarrow>
        HG_OT_quantize_to_grid_execute ctx = (ctx, Inr CANCELLED))"
proof -
  let ?r = "HG_OT_quantize_to_grid_execute ctx"
  have same_ob: "\<And>ob :: bobject. \<exists>l. ob = ob\<lparr>location := l\<rparr>"
  proof -
    fix ob :: bobject
    have "ob = ob\<lparr>location := location ob\<rparr>" by simp
    then show "\<exists>l. ob = ob\<lparr>location := l\<rparr>" ..
  qed
  have same_v: "\<And>w :: bvert. \<exists>c. w = w\<lparr>co := c\<rparr>"
  proof -
    fix w :: bvert
    have "w = w\<lparr>co := co w\<rparr>" by simp
    then show "\<exists>c. w = w\<lparr>co := c\<rparr>" ..
  qed
  consider (unchanged) "fst ?r = ctx"
    | (objs) st r where "mode ctx = ''OBJECT''" "fst ?r = ctx\<lparr>objects := st\<rparr>"
        "quantize_objects (grid_size (hg (the (scene ctx)))) (selected_objects ctx) (objects ctx) = (st, r)"
    | (verts) a vs r minv where "mode ctx \<noteq> ''OBJECT''" "active_object ctx = Some a"
        "fst ?r = ctx\<lparr>meshes := (meshes ctx)(data (objects ctx a) := vs)\<rparr>"
        "quantize_verts (grid_size (hg (the (scene ctx)))) (matmul (matrix_world (objects ctx a))) minv
           (meshes ctx (data (objects ctx a))) = (vs, r)"
  proof (cases "scene ctx")
    case None
    then have "fst ?r = ctx" by (simp add: HG_OT_quantize_to_grid_execute_def)
    then show ?thesis by (rule unchanged)
  next
    case sc: (Some sc)
    show ?thesis
    proof (cases "active_object ctx")
      case None
      then have "fst ?r = ctx" using sc by (simp add: HG_OT_quantize_to_grid_execute_def)
      then show ?thesis by (rule unchanged)
    next
      case a: (Some a)
      show ?thesis
      proof (cases "mode ctx = ''OBJECT''")
        case True
        obtain st r where q: "quantize_objects (grid_size (hg sc)) (selected_objects ctx) (objects ctx) = (st, r)"
          by (cases "quantize_objects (grid_size (hg sc)) (selected_objects ctx) (objects ctx)")
        then have "fst ?r = ctx\<lparr>objects := st\<rparr>" using sc a True
          by (cases r) (simp_all add: HG_OT_quantize_to_grid_execute_def)
        with True q sc show ?thesis by (intro objs[of st r]) simp_all
      next
        case False
        show ?thesis
        proof (cases "obj_type (objects ctx a) = ''MESH'' \<and> mode ctx = ''EDIT_MESH''")
          case F2: False
          then have "fst ?r = ctx" using sc a False
            by (auto simp add: HG_OT_quantize_to_grid_execute_def)
          then show ?thesis by (rule unchanged)
        next
          case True
          show ?thesis
          proof (cases "inverted (matrix_world (objects ctx a))")
            case None
            then have "fst ?r = ctx" using sc a False True
              by (simp add: HG_OT_quantize_to_grid_execute_def)
            then show ?thesis by (rule unchanged)
          next
            case (Some minv)
            obtain vs r where q: "quantize_verts (grid_size (hg sc)) (matmul (matrix_world (objects ctx a))) minv
               (meshes ctx (data (objects ctx a))) = (vs, r)"
              by (cases "quantize_verts (grid_size (hg sc)) (matmul (matrix_world (objects ctx a))) minv
               (meshes ctx (data (objects ctx a)))")
            then have "fst ?r = ctx\<lparr>meshes := (meshes ctx)(data (objects ctx a) := vs)\<rparr>"
              using sc a False True Some
              by (cases r) (simp_all add: HG_OT_quantize_to_grid_execute_def)
            with False a q sc show ?thesis by (intro verts[of a vs minv r]) simp_all
          qed
        qed
      qed
    qed
  qed
  then have main: "(\<forall>i. i \<notin> set (selected_objects ctx) \<longrightarrow> objects (fst ?r) i = objects ctx i)
   \<and> (\<forall>i. \<exists>l. objects (fst ?r) i = (objects ctx i)\<lparr>location := l\<rparr>)
   \<and> (\<forall>m. length (meshes (fst ?r) m) = length (meshes ctx m) \<and>
        (\<forall>j < length (meshes ctx m).
           (\<not> select (meshes ctx m ! j) \<longrightarrow> meshes (fst ?r) m ! j = meshes ctx m ! j) \<and>
           (\<exists>c. meshes (fst ?r) m ! j = (meshes ctx m ! j)\<lparr>co := c\<rparr>)))
   \<and> fst ?r = ctx\<lparr>objects := objects (fst ?r), meshes := meshes (fst ?r)\<rparr>
   \<and> (mode ctx = ''OBJECT'' \<longrightarrow> meshes (fst ?r) = meshes ctx)
   \<and> (mode ctx \<noteq> ''OBJECT'' \<longrightarrow> objects (fst ?r) = objects ctx \<and>
        (\<forall>a m. active_object ctx = Some a \<and> m \<noteq> data (objects ctx a) \<longrightarrow>
           meshes (fst ?r) m = meshes ctx m))"
  proof cases
    case unchanged
    then show ?thesis using same_ob same_v by simp
  next
    case (objs st r)
    from quantize_objects_frame[OF objs(3)] objs(1,2) same_v
    show ?thesis by simp
  next
    case (verts a vs r minv)
    from quantize_verts_frame[OF verts(4)]
    have f: "length vs = length (meshes ctx (data (objects ctx a)))"
      "\<forall>j < length (meshes ctx (data (objects ctx a))).
         (\<not> select (meshes ctx (data (objects ctx a)) ! j) \<longrightarrow> vs ! j = meshes ctx (data (objects ctx a)) ! j) \<and>
         (\<exists>c. vs ! j = (meshes ctx (data (objects ctx a)) ! j)\<lparr>co := c\<rparr>)"
      by auto
    show ?thesis using verts(1,2,3) f same_ob same_v by auto
  qed
  have canc: "scene ctx \<noteq> None \<and>
       (active_object ctx = None \<or> (mode ctx \<noteq> ''OBJECT'' \<and> mode ctx \<noteq> ''EDIT_MESH'')) \<longrightarrow>
        ?r = (ctx, Inr CANCELLED)"
    by (auto simp add: HG_OT_quantize_to_grid_execute_def Let_def split: option.splits)
  from main canc show ?thesis by (intro conjI) blast+
qed


lemma round_to_step_half: "round_to_step (Fin (1/2)) (Fin 1) = Inr (Fin 0)"
proof -
  have r: "rhe (1/2) = 0" by (simp add: rhe_def)
  show ?thesis
    by (simp add: round_to_step_def py_truediv_def fl_half r int_mul_def float_of_int_def fl_0)
qed

text \<open>
  Object mode, two objects at \<open>(0.5, 0, 0)\<close>, the first selected: the second is
  unchanged, the first is moved to the origin. Without an active object the operator is
  cancelled.
\<close>

theorem quantize_frame_witness:
  "selected_objects (ex_context True (Fin 1) False ''OBJECT'' (Some 0) [0]
       (ex_objects [(Fin (1/2), Fin 0, Fin 0), (Fin (1/2), Fin 0, Fin 0)])) = [0]
   \<and> objects (fst (HG_OT_quantize_to_grid_execute (ex_context True (Fin 1) False ''OBJECT'' (Some 0) [0]
       (ex_objects [(Fin (1/2), Fin 0, Fin 0), (Fin (1/2), Fin 0, Fin 0)])))) 1
     = ex_objects [(Fin (1/2), Fin 0, Fin 0), (Fin (1/2), Fin 0, Fin 0)] 1
   \<and> location (objects (fst (HG_OT_quantize_to_grid_execute (ex_context True (Fin 1) False ''OBJECT'' (Some 0) [0]
       (ex_objects [(Fin (1/2), Fin 0, Fin 0), (Fin (1/2), Fin 0, Fin 0)])))) 0)
     = (Fin 0, Fin 0, Fin 0)
   \<and> active_object (ex_context True (Fin 1) False ''OBJECT'' None [] (ex_objects [])) = None
   \<and> HG_OT_quantize_to_grid_execute (ex_context True (Fin 1) False ''OBJECT'' None [] (ex_objects []))
     = (ex_context True (Fin 1) False ''OBJECT'' None [] (ex_objects []), Inr CANCELLED)"
proof -
  let ?c = "ex_context True (Fin 1) False ''OBJECT'' (Some 0) [0]
       (ex_objects [(Fin (1/2), Fin 0, Fin 0), (Fin (1/2), Fin 0, Fin 0)])"
  let ?d = "ex_context True (Fin 1) False ''OBJECT'' None [] (ex_objects [])"
  have s: "selected_objects ?c = [0]" "objects ?c = ex_objects [(Fin (1/2), Fin 0, Fin 0), (Fin (1/2), Fin 0, Fin 0)]"
    by (simp_all add: ex_context_def)
  have n: "scene ?d \<noteq> None" "active_object ?d = None" by (simp_all add: ex_context_def)
  from quantize_frame[of ?c] have "\<forall>i. i \<notin> set (selected_objects ?c) \<longrightarrow>
        objects (fst (HG_OT_quantize_to_grid_execute ?c)) i = objects ?c i" by blast
  then have 1: "objects (fst (HG_OT_quantize_to_grid_execute ?c)) 1
     = ex_objects [(Fin (1/2), Fin 0, Fin 0), (Fin (1/2), Fin 0, Fin 0)] 1"
    using s by simp
  have q: "quantize_vector_world (Fin (1/2), Fin 0, Fin 0) (Fin 1) = Inr (Fin 0, Fin 0, Fin 0)"
    by (simp add: quantize_vector_world_def Vector_def round_to_step_half round_to_step_0 fl32_0)
  have 2: "location (objects (fst (HG_OT_quantize_to_grid_execute ?c)) 0) = (Fin 0, Fin 0, Fin 0)"
    by (simp add: HG_OT_quantize_to_grid_execute_def ex_context_def ex_objects_simps q)
  from quantize_frame[of ?d] n
  have 3: "HG_OT_quantize_to_grid_execute ?d = (?d, Inr CANCELLED)" by blast
  from s(1) 1 2 n(2) 3 show ?thesis by (intro conjI)
qed

text \<open>
  Claim C8, as stated, fails for halving: the halving operator clamps from below only, and
  the step can be set above \<open>2e6\<close> by direct edit (the property has no maximum). From a
  step of \<open>4e6\<close> it leaves \<open>2e6\<close>, which is above \<open>1e6\<close>.
\<close>

theorem halve_above_range_counterexample:
  "grid_step (ex_context True (Fin 4000000) False ''OBJECT'' None [] (ex_objects []))
     = Some (Fin 4000000)
   \<and> grid_step (fst (HG_OT_grid_step_down_execute
        (ex_context True (Fin 4000000) False ''OBJECT'' None [] (ex_objects []))))
     = Some (Fin 2000000)
   \<and> \<not> float_le (Fin 2000000) lit_1e6"
proof -
  have g: "grid_step (ex_context True (Fin 4000000) False ''OBJECT'' None [] (ex_objects []))
     = Some (Fin 4000000)" by (simp add: grid_step_def ex_context_def)
  from grid_step_operators(2)[OF g] g show ?thesis
    by (simp add: step_down_4e6 store_2e6 lit_1e6_def)
qed

text \<open>
  Claim C8, amended. The grid step is a single-precision property whose minimum is the
  single-precision value nearest \<open>1e-6\<close>, \<open>8796093 / 2^43\<close>, which is slightly below the
  double \<open>1e-6\<close> of the source. The operators finish and leave in the property the
  single-precision value of \<open>max(1e-6, step * 0.5)\<close> and of \<open>min(1e6, step * 2.0)\<close>.
  Halving never leaves a step below that minimum and doubling never one above \<open>1e6\<close>,
  whatever the starting value; from a starting value between the minimum and \<open>1e6\<close>
  both operations leave the step between the minimum and \<open>1e6\<close>, and the limits of the
  property do not change what is stored; halving the minimum leaves the minimum and
  doubling \<open>1e6\<close> leaves \<open>1e6\<close>.
\<close>

theorem grid_step_clamped:
  "(grid_step ctx = Some g \<longrightarrow>
        snd (HG_OT_grid_step_down_execute ctx) = Inr FINISHED \<and>
        grid_step (fst (HG_OT_grid_step_down_execute ctx)) = Some (store_grid_size (step_down g)) \<and>
        snd (HG_OT_grid_step_up_execute ctx) = Inr FINISHED \<and>
        grid_step (fst (HG_OT_grid_step_up_execute ctx)) = Some (store_grid_size (step_up g)))
   \<and> float_le grid_size_min (store_grid_size (step_down g))
   \<and> float_le (store_grid_size (step_up g)) lit_1e6
   \<and> (float_le grid_size_min g \<and> float_le g lit_1e6 \<longrightarrow>
        float_le (store_grid_size (step_down g)) lit_1e6 \<and>
        float_le grid_size_min (store_grid_size (step_up g)) \<and>
        store_grid_size (step_down g) = to_single (step_down g) \<and>
        store_grid_size (step_up g) = to_single (step_up g))
   \<and> store_grid_size (step_down grid_size_min) = grid_size_min
   \<and> store_grid_size (step_up lit_1e6) = lit_1e6
   \<and> step_down g = py_max lit_1e_6 (float_mul g (Fin (1/2)))
   \<and> step_up g = py_min lit_1e6 (float_mul g (Fin 2))
   \<and> grid_size_min = Fin (8796093 / 8796093022208)
   \<and> float_lt grid_size_min lit_1e_6"
proof -
  have c1: "grid_step ctx = Some g \<longrightarrow>
        snd (HG_OT_grid_step_down_execute ctx) = Inr FINISHED \<and>
        grid_step (fst (HG_OT_grid_step_down_execute ctx)) = Some (store_grid_size (step_down g)) \<and>
        snd (HG_OT_grid_step_up_execute ctx) = Inr FINISHED \<and>
        grid_step (fst (HG_OT_grid_step_up_execute ctx)) = Some (store_grid_size (step_up g))"
    using grid_step_operators[of ctx g] by blast
  have c2: "float_le grid_size_min (store_grid_size (step_down g))"
    using step_down_lower by (rule store_lower(1))
  have c3: "float_le (store_grid_size (step_up g)) lit_1e6"
    using step_up_upper by (rule store_upper(1))
  have c4: "float_le grid_size_min g \<and> float_le g lit_1e6 \<longrightarrow>
        float_le (store_grid_size (step_down g)) lit_1e6 \<and>
        float_le grid_size_min (store_grid_size (step_up g)) \<and>
        store_grid_size (step_down g) = to_single (step_down g) \<and>
        store_grid_size (step_up g) = to_single (step_up g)"
  proof
    assume a: "float_le grid_size_min g \<and> float_le g lit_1e6"
    then have r: "float_le (step_down g) lit_1e6" "float_le grid_size_min (step_up g)"
      using step_in_range32[of g] by blast+
    have d1: "float_le (store_grid_size (step_down g)) lit_1e6" using r(1) by (rule store_upper(1))
    have "float_le lit_1e6 float32_max" by (simp add: lit_1e6_def float32_max_def)
    with r(1) have "float_le (step_down g) float32_max" by (rule float_le_trans)
    with step_down_lower have d3: "store_grid_size (step_down g) = to_single (step_down g)"
      by (rule store_lower(2))
    from step_up_upper r(2) have d4: "store_grid_size (step_up g) = to_single (step_up g)"
      by (rule store_upper(2))
    have "float_le (to_single grid_size_min) (to_single (step_up g))"
      using r(2) by (rule to_single_mono)
    then have d2: "float_le grid_size_min (store_grid_size (step_up g))"
      by (simp only: to_single_min d4)
    from d1 d2 d3 d4 show "float_le (store_grid_size (step_down g)) lit_1e6 \<and>
        float_le grid_size_min (store_grid_size (step_up g)) \<and>
        store_grid_size (step_down g) = to_single (step_down g) \<and>
        store_grid_size (step_up g) = to_single (step_up g)" by (intro conjI)
  qed
  show ?thesis
    by (intro conjI c1 c2 c3 c4 store_at_min store_at_max step_down_def step_up_def
        grid_size_min_eq grid_size_min_below)
qed

lemma step_down_1: "step_down (Fin 1) = Fin (1/2)"
  by (simp add: step_down_def py_max_def fl_half lit_1e_6_eq)

lemma fl32_half: "fl32 (1/2) = Fin (1/2)"
  using fl32_exact[of 1 "- 1"] by (simp add: power_int_minus_divide)

text \<open>A step of 1 lies in the range; its half, 0.5, is stored as it is.\<close>

theorem grid_step_clamped_witness:
  "float_le grid_size_min (Fin 1) \<and> float_le (Fin 1) lit_1e6
   \<and> grid_step (ex_context True (Fin 1) False ''OBJECT'' None [] (ex_objects [])) = Some (Fin 1)
   \<and> store_grid_size (step_down (Fin 1)) = Fin (1/2)
   \<and> float_le (store_grid_size (step_down (Fin 1))) lit_1e6
   \<and> float_le grid_size_min (store_grid_size (step_up (Fin 1)))
   \<and> grid_step (fst (HG_OT_grid_step_down_execute
        (ex_context True (Fin 1) False ''OBJECT'' None [] (ex_objects [])))) = Some (Fin (1/2))"
proof -
  have h: "float_le grid_size_min (Fin 1)" "float_le (Fin 1) lit_1e6"
    by (simp_all add: grid_size_min_eq lit_1e6_def)
  have g: "grid_step (ex_context True (Fin 1) False ''OBJECT'' None [] (ex_objects [])) = Some (Fin 1)"
    by (simp add: grid_step_def ex_context_def)
  note t = grid_step_clamped[of "ex_context True (Fin 1) False ''OBJECT'' None [] (ex_objects [])" "Fin 1"]
  from t h have s: "store_grid_size (step_down (Fin 1)) = to_single (step_down (Fin 1))"
    and r: "float_le (store_grid_size (step_down (Fin 1))) lit_1e6"
      "float_le grid_size_min (store_grid_size (step_up (Fin 1)))" by blast+
  from s have s': "store_grid_size (step_down (Fin 1)) = Fin (1/2)"
    by (simp add: step_down_1 fl32_half)
  from t g have "grid_step (fst (HG_OT_grid_step_down_execute
        (ex_context True (Fin 1) False ''OBJECT'' None [] (ex_objects []))))
      = Some (store_grid_size (step_down (Fin 1)))" by blast
  then have o: "grid_step (fst (HG_OT_grid_step_down_execute
        (ex_context True (Fin 1) False ''OBJECT'' None [] (ex_objects [])))) = Some (Fin (1/2))"
    by (simp only: s')
  from h g s' r o show ?thesis by (intro conjI)
qed

lemma rhe_tie: "rhe (of_int n + 1/2) = (if even n then n else n + 1)"
proof -
  have f: "\<lfloor>(of_int n :: real) + 1/2\<rfloor> = n" by linarith
  show ?thesis unfolding rhe_def Let_def f by simp
qed

lemma quantize_vector_world_Inr:
  "quantize_vector_world (x, y, z) step = Inr (a, b, c) \<longleftrightarrow>
     (\<exists>p q r. round_to_step x step = Inr p \<and> round_to_step y step = Inr q \<and>
        round_to_step z step = Inr r \<and> a = to_single p \<and> b = to_single q \<and> c = to_single r)"
  by (auto simp: quantize_vector_world_def Vector_def split: sum.splits)

lemma round_to_step_at_inf: "round_to_step (Fin v) PInf = Inr NaN"
  by (simp add: round_to_step_def py_truediv_def int_mul_def float_of_int_def fl_0
      rhe_of_int[of 0, simplified])

lemma round_to_step_nonfinite: "\<not> isfinite w \<Longrightarrow> round_to_step w step = Inr w \<and> to_single w = w"
  by (cases w) (simp_all add: round_to_step_def)

lemma to_single_nearest:
  assumes "to_single (Fin u) = Fin t" "is_binary32 d"
  shows "is_binary32 t" "\<bar>t - u\<bar> \<le> \<bar>d - u\<bar>"
proof -
  from assms(1) have f: "fl32 u = Fin t" by simp
  show "is_binary32 t" using f by (rule fl32_grid)
  from fl32_Fin[OF f] have t: "t = rtd32 u" by blast
  from assms(2) have "rtd32 d = d" by (simp add: is_binary32_def)
  then show "\<bar>t - u\<bar> \<le> \<bar>d - u\<bar>" unfolding t by (rule rtd32_nearest)
qed

text \<open>
  Claim C4, as stated, fails: the quantizer returns a \<open>Vector\<close>, which holds its
  components in single precision, so the point does not hold \<open>round(c / step) * step\<close>
  but its single-precision rounding. With the single-precision coordinate nearest
  1000.1 and the single-precision step nearest 0.1, \<open>round(c / step) * step\<close> is
  \<open>134231151773 / 2^27 = 1000.1000149...\<close>, and the point returned holds
  \<open>16385639 / 2^14 = 1000.1000366...\<close>.
\<close>

theorem vector_rounds_counterexample:
  "is_binary32 (8192819 / 8192) \<and> is_binary32 (13421773 / 134217728)
   \<and> round_to_step (Fin (8192819 / 8192)) (Fin (13421773 / 134217728))
       = Inr (Fin (134231151773 / 134217728))
   \<and> quantize_vector_world (Fin (8192819 / 8192), Fin 0, Fin 0) (Fin (13421773 / 134217728))
       = Inr (Fin (16385639 / 16384), Fin 0, Fin 0)
   \<and> Fin (16385639 / 16384) \<noteq> Fin (134231151773 / 134217728)"
  using ex32_inputs ex32_round ex32_quantize by simp

text \<open>
  Claim C4, amended. The quantizer works on each axis alone: it returns a point exactly
  when \<open>_round_to_step\<close> returns on the three coordinates, and the point holds the three
  results converted to single precision, each the nearest single-precision value. For a
  finite coordinate \<open>v\<close> and a finite step \<open>s > 0\<close> the result of \<open>_round_to_step\<close> is
  \<open>round(v / s) * s\<close> in double-precision arithmetic: the quotient is rounded to a
  float, then to an integer, and the product with the step is rounded to a float (the
  expression raises when the quotient is an infinity). With an infinite step the
  expression is \<open>0 * inf\<close>, which is NaN. The integer rounding has one convention: it
  returns an integer that is nearest, and on a tie the even one. A coordinate that is
  not finite is returned as it is, whatever the step, and stored as it is.
\<close>

theorem quantizer_formula:
  "(quantize_vector_world (x, y, z) step = Inr (a, b, c) \<longleftrightarrow>
      (\<exists>p q r. round_to_step x step = Inr p \<and> round_to_step y step = Inr q \<and>
         round_to_step z step = Inr r \<and> a = to_single p \<and> b = to_single q \<and> c = to_single r))
   \<and> (0 < s \<longrightarrow> round_to_step (Fin v) (Fin s) =
        (case fl (v / s) of
           Fin q \<Rightarrow> Inr (fl (of_int (rhe q) * s))
         | PInf \<Rightarrow> Inl OverflowError | NInf \<Rightarrow> Inl OverflowError | NaN \<Rightarrow> Inl ValueError))
   \<and> round_to_step (Fin v) PInf = Inr NaN
   \<and> (\<not> isfinite w \<longrightarrow> round_to_step w step = Inr w \<and> to_single w = w)
   \<and> (to_single (Fin u) = Fin t \<and> is_binary32 d \<longrightarrow> is_binary32 t \<and> \<bar>t - u\<bar> \<le> \<bar>d - u\<bar>)
   \<and> rhe (of_int n + 1/2) = (if even n then n else n + 1)
   \<and> \<bar>of_int (rhe h) - h\<bar> \<le> 1/2"
proof -
  have c2: "0 < s \<longrightarrow> round_to_step (Fin v) (Fin s) =
        (case fl (v / s) of
           Fin q \<Rightarrow> Inr (fl (of_int (rhe q) * s))
         | PInf \<Rightarrow> Inl OverflowError | NInf \<Rightarrow> Inl OverflowError | NaN \<Rightarrow> Inl ValueError)"
    using round_to_step_Fin[of s v] by (rule impI)
  have c4: "\<not> isfinite w \<longrightarrow> round_to_step w step = Inr w \<and> to_single w = w"
    using round_to_step_nonfinite[of w step] by (rule impI)
  have c5: "to_single (Fin u) = Fin t \<and> is_binary32 d \<longrightarrow> is_binary32 t \<and> \<bar>t - u\<bar> \<le> \<bar>d - u\<bar>"
    using to_single_nearest[of u t d] by blast
  show ?thesis
    by (intro conjI quantize_vector_world_Inr c2 round_to_step_at_inf c4 c5 rhe_tie rhe_err)
qed

text \<open>
  The point \<open>(0.5, 0, NaN)\<close> with step 1 goes to \<open>(0, 0, NaN)\<close>: the tie goes to the
  even integer, and NaN passes through. The product \<open>1000.1000149...\<close> is stored as
  \<open>1000.1000366...\<close>, which is nearer to it than the single-precision value below.
\<close>

theorem quantizer_formula_witness:
  "(0::real) < 1 \<and> \<not> isfinite NaN
   \<and> round_to_step (Fin (1/2)) (Fin 1) = Inr (Fin 0)
   \<and> round_to_step NaN (Fin 1) = Inr NaN
   \<and> quantize_vector_world (Fin (1/2), Fin 0, NaN) (Fin 1) = Inr (Fin 0, Fin 0, NaN)
   \<and> to_single (Fin (134231151773 / 134217728)) = Fin (16385639 / 16384)
   \<and> is_binary32 (8192819 / 8192) \<and> is_binary32 (16385639 / 16384)
   \<and> \<bar>16385639 / 16384 - 134231151773 / 134217728 :: real\<bar>
        \<le> \<bar>8192819 / 8192 - 134231151773 / 134217728\<bar>
   \<and> rhe (1/2) = 0 \<and> rhe (3/2) = 2 \<and> rhe (- (5/2)) = - 2"
proof -
  note t = quantizer_formula[where x="Fin (1/2)" and y="Fin 0" and z=NaN and step="Fin 1"
      and a="Fin 0" and b="Fin 0" and c=NaN and s=1 and v="1/2" and w=NaN
      and u="134231151773 / 134217728" and t="16385639 / 16384" and d="8192819 / 8192"]
  have r0: "rhe (of_int 0 + 1/2) = 0" using t[where n=0 and h=0] by simp
  have r1: "rhe (of_int 1 + 1/2) = 2" using t[where n=1 and h=0] by simp
  have r2: "rhe (of_int (- 3) + 1/2) = - 2" using t[where n="- 3" and h=0] by simp
  from r0 r1 r2 have r: "rhe (1/2) = 0" "rhe (3/2) = 2" "rhe (- (5/2)) = - 2" by simp_all
  have ts: "to_single (Fin (134231151773 / 134217728)) = Fin (16385639 / 16384)"
    by (simp add: ex32_single)
  from t[where n=0 and h=0]
  have h: "round_to_step (Fin (1/2)) (Fin 1) = Inr (Fin 0)"
    and n: "round_to_step NaN (Fin 1) = Inr NaN"
    by (simp_all add: fl_half r(1) fl_0)
  from t[where n=0 and h=0]
  have q: "quantize_vector_world (Fin (1/2), Fin 0, NaN) (Fin 1) = Inr (Fin 0, Fin 0, NaN) \<longleftrightarrow>
      (\<exists>p q r. round_to_step (Fin (1/2)) (Fin 1) = Inr p \<and> round_to_step (Fin 0) (Fin 1) = Inr q \<and>
         round_to_step NaN (Fin 1) = Inr r \<and> Fin 0 = to_single p \<and> Fin 0 = to_single q \<and> NaN = to_single r)"
    by blast
  have "quantize_vector_world (Fin (1/2), Fin 0, NaN) (Fin 1) = Inr (Fin 0, Fin 0, NaN)"
    unfolding q using h n by (simp add: round_to_step_0 fl32_0)
  moreover from t[where n=0 and h=0] ts ex32_inputs(1)
  have "is_binary32 (16385639 / 16384) \<and> \<bar>16385639 / 16384 - 134231151773 / 134217728 :: real\<bar>
        \<le> \<bar>8192819 / 8192 - 134231151773 / 134217728\<bar>" by blast
  ultimately show ?thesis using h n r ts ex32_inputs(1) by simp
qed

text \<open>
  Claim C7. The points of the program are vectors, whose coordinates are single-precision
  values, and the step is the value of a single-precision property. For every point of
  finite single-precision coordinates and every finite single-precision step \<open>s > 0\<close>
  the quantizer returns a point \<open>Q\<close>, and it returns \<open>Q\<close> again on \<open>Q\<close>: quantizing the
  quantized point gives what quantizing the point gives.
\<close>

theorem quantize_idempotent:
  assumes "is_binary32 x" "is_binary32 y" "is_binary32 z" "is_binary32 s" "0 < s"
  shows "(case quantize_vector_world (Fin x, Fin y, Fin z) (Fin s) of
            Inl e \<Rightarrow> Inl e | Inr Q \<Rightarrow> quantize_vector_world Q (Fin s))
         = quantize_vector_world (Fin x, Fin y, Fin z) (Fin s)
     \<and> (\<exists>Q. quantize_vector_world (Fin x, Fin y, Fin z) (Fin s) = Inr Q
           \<and> quantize_vector_world Q (Fin s) = Inr Q)"
proof -
  from quantize_vector_world32[OF assms] obtain Q where
    Q: "quantize_vector_world (Fin x, Fin y, Fin z) (Fin s) = Inr Q"
      "quantize_vector_world Q (Fin s) = Inr Q" by blast
  then show ?thesis by auto
qed

text \<open>
  The single-precision point nearest \<open>(1000.1, 0, 0)\<close> with the single-precision step
  nearest 0.1 goes to \<open>(1000.1000366..., 0, 0)\<close>, which goes to itself.
\<close>

theorem quantize_idempotent_witness:
  "is_binary32 (8192819 / 8192) \<and> is_binary32 0 \<and> is_binary32 (13421773 / 134217728)
   \<and> (0::real) < 13421773 / 134217728
   \<and> quantize_vector_world (Fin (8192819 / 8192), Fin 0, Fin 0) (Fin (13421773 / 134217728))
       = Inr (Fin (16385639 / 16384), Fin 0, Fin 0)
   \<and> quantize_vector_world (Fin (16385639 / 16384), Fin 0, Fin 0) (Fin (13421773 / 134217728))
       = Inr (Fin (16385639 / 16384), Fin 0, Fin 0)"
proof -
  have s: "(0::real) < 13421773 / 134217728" by simp
  from quantize_idempotent[OF ex32_inputs(1) is_binary32_0 is_binary32_0 ex32_inputs(2) s]
  obtain Q where "quantize_vector_world (Fin (8192819 / 8192), Fin 0, Fin 0) (Fin (13421773 / 134217728)) = Inr Q"
    "quantize_vector_world Q (Fin (13421773 / 134217728)) = Inr Q" by blast
  then have "quantize_vector_world (Fin (16385639 / 16384), Fin 0, Fin 0) (Fin (13421773 / 134217728))
       = Inr (Fin (16385639 / 16384), Fin 0, Fin 0)" by (simp add: ex32_quantize)
  with ex32_inputs is_binary32_0 s ex32_quantize show ?thesis by (intro conjI)
qed









end
